theory Spec2Isabelle
  imports Complex_Main "HOL-Library.Word"
begin

section \<open>The posting-list index of \<open>src/btree.ts\<close>\<close>

text \<open>
  Document ids are \<open>uint32\<close>. A \<open>RoaringBitmap32\<close> is the external compressed set of
  document ids; only its contents matter here, so it is a set of 32-bit words
  (\<open>add\<close> is \<open>insert\<close>, \<open>orInPlace\<close> is union, \<open>and\<close> is intersection, \<open>size\<close> is \<open>card\<close>).
  Keys have the generic type \<open>T\<close>, compared with \<open><\<close>, \<open>>=\<close> and \<open>==\<close>: a linear order.
\<close>

type_synonym uint32 = "32 word"
type_synonym RoaringBitmap32 = "uint32 set"

text \<open>
  \<open>TypeError\<close>: a method is called on \<open>undefined\<close> (a child or a posting set read out of
  range). \<open>Undefined\<close>: an out-of-range read yields \<open>undefined\<close> where a key or a
  document id is expected; the model stops there.
\<close>

datatype error = TypeError | Undefined

definition MAX_NODE_SIZE :: nat where "MAX_NODE_SIZE = 32"
definition MAX_LEAF_SIZE :: nat where "MAX_LEAF_SIZE = 32"

datatype 'a BTreeElement =
    BTreeLeaf (keys: "'a list") (vals: "RoaringBitmap32 list")
  | BTreeNode (keys: "'a list") (children: "'a BTreeElement list") (covering: RoaringBitmap32)

record 'a SplitResult =
  medianKey :: 'a
  left :: "'a BTreeElement"
  right :: "'a BTreeElement"

record 'a BTree =
  root :: "'a BTreeElement"

subsection \<open>Arrays\<close>

text \<open>\<open>xs[i]\<close> of JavaScript: \<open>undefined\<close> (here \<open>None\<close>) out of range.\<close>

definition array_get :: "'b list \<Rightarrow> nat \<Rightarrow> 'b option" where
  "array_get xs i = (if i < length xs then Some (xs ! i) else None)"

text \<open>\<open>xs.splice(i, 0, x)\<close>: insert \<open>x\<close> before position \<open>i\<close>, at the end when \<open>i\<close> is
  beyond the length.\<close>

definition array_splice :: "nat \<Rightarrow> 'b \<Rightarrow> 'b list \<Rightarrow> 'b list" where
  "array_splice i x xs = take i xs @ x # drop i xs"

subsection \<open>Leaves\<close>

text \<open>\<open>_findIndex\<close>: the loop \<open>for (; i < keys.length && key >= keys[i]; ++i)\<close>.\<close>

fun findIndex :: "'a::linorder \<Rightarrow> 'a list \<Rightarrow> nat" where
  "findIndex key [] = 0"
| "findIndex key (k # ks) = (if key \<ge> k then Suc (findIndex key ks) else 0)"

text \<open>\<open>BTreeLeaf.get\<close>: \<open>i = _findIndex(key) - 1\<close>; for \<open>i = -1\<close> the read \<open>keys[i]\<close> is
  \<open>undefined\<close> and the comparison with \<open>key\<close> fails.\<close>

definition BTreeLeaf_get :: "'a::linorder \<Rightarrow> 'a list \<Rightarrow> RoaringBitmap32 list \<Rightarrow> RoaringBitmap32 option" where
  "BTreeLeaf_get key ks vs =
     (let n = findIndex key ks in
      if n = 0 then None
      else if array_get ks (n - 1) = Some key then array_get vs (n - 1)
      else None)"

text \<open>\<open>BTreeLeaf.insert\<close>: \<open>bitmap.add(value)\<close> changes the posting set found by \<open>get\<close>,
  which is the one at index \<open>_findIndex(key) - 1\<close>.\<close>

definition BTreeLeaf_insert :: "'a::linorder \<Rightarrow> uint32 \<Rightarrow> 'a list \<Rightarrow> RoaringBitmap32 list \<Rightarrow> 'a BTreeElement" where
  "BTreeLeaf_insert key val ks vs =
     (case BTreeLeaf_get key ks vs of
        Some bitmap \<Rightarrow> BTreeLeaf ks (vs[findIndex key ks - 1 := insert val bitmap])
      | None \<Rightarrow>
          (let i = findIndex key ks
           in BTreeLeaf (array_splice i key ks) (array_splice i {val} vs)))"

text \<open>\<open>BTreeLeaf.collectAll\<close>: \<open>for (i = 0; i < keys.length; ++i) accumulator.orInPlace(values[i])\<close>.
  Where \<open>values[i]\<close> is \<open>undefined\<close> (fewer posting sets than keys) the call throws.\<close>

fun BTreeLeaf_collectAll :: "RoaringBitmap32 \<Rightarrow> 'a list \<Rightarrow> RoaringBitmap32 list \<Rightarrow> error + RoaringBitmap32" where
  "BTreeLeaf_collectAll acc [] vs = Inr acc"
| "BTreeLeaf_collectAll acc (k # ks) [] = Inl TypeError"
| "BTreeLeaf_collectAll acc (k # ks) (v # vs) = BTreeLeaf_collectAll (acc \<union> v) ks vs"

text \<open>The four range loops of a leaf. The downward loops carry \<open>i + 1\<close> (so \<open>0\<close> is
  \<open>i = -1\<close>) and start at \<open>keys.length\<close>.\<close>

fun BTreeLeaf_collectGt :: "nat \<Rightarrow> RoaringBitmap32 \<Rightarrow> 'a::linorder \<Rightarrow> 'a list \<Rightarrow> RoaringBitmap32 list \<Rightarrow> error + RoaringBitmap32" where
  "BTreeLeaf_collectGt 0 acc key ks vs = Inr acc"
| "BTreeLeaf_collectGt (Suc i) acc key ks vs =
     (case array_get ks i of
        None \<Rightarrow> Inr acc
      | Some k \<Rightarrow>
          if key > k then
            (case array_get vs i of
               None \<Rightarrow> Inl TypeError
             | Some v \<Rightarrow> BTreeLeaf_collectGt i (acc \<union> v) key ks vs)
          else Inr acc)"

fun BTreeLeaf_collectGte :: "nat \<Rightarrow> RoaringBitmap32 \<Rightarrow> 'a::linorder \<Rightarrow> 'a list \<Rightarrow> RoaringBitmap32 list \<Rightarrow> error + RoaringBitmap32" where
  "BTreeLeaf_collectGte 0 acc key ks vs = Inr acc"
| "BTreeLeaf_collectGte (Suc i) acc key ks vs =
     (case array_get ks i of
        None \<Rightarrow> Inr acc
      | Some k \<Rightarrow>
          if key \<ge> k then
            (case array_get vs i of
               None \<Rightarrow> Inl TypeError
             | Some v \<Rightarrow> BTreeLeaf_collectGte i (acc \<union> v) key ks vs)
          else Inr acc)"

fun BTreeLeaf_collectLt :: "RoaringBitmap32 \<Rightarrow> 'a::linorder \<Rightarrow> 'a list \<Rightarrow> RoaringBitmap32 list \<Rightarrow> error + RoaringBitmap32" where
  "BTreeLeaf_collectLt acc key [] vs = Inr acc"
| "BTreeLeaf_collectLt acc key (k # ks) vs =
     (if key < k then
        (case vs of
           [] \<Rightarrow> Inl TypeError
         | v # vs' \<Rightarrow> BTreeLeaf_collectLt (acc \<union> v) key ks vs')
      else Inr acc)"

fun BTreeLeaf_collectLte :: "RoaringBitmap32 \<Rightarrow> 'a::linorder \<Rightarrow> 'a list \<Rightarrow> RoaringBitmap32 list \<Rightarrow> error + RoaringBitmap32" where
  "BTreeLeaf_collectLte acc key [] vs = Inr acc"
| "BTreeLeaf_collectLte acc key (k # ks) vs =
     (if key \<le> k then
        (case vs of
           [] \<Rightarrow> Inl TypeError
         | v # vs' \<Rightarrow> BTreeLeaf_collectLte (acc \<union> v) key ks vs')
      else Inr acc)"

subsection \<open>Operations shared by leaves and inner nodes\<close>

fun full :: "'a BTreeElement \<Rightarrow> bool" where
  "full (BTreeLeaf ks vs) = (length ks \<ge> MAX_LEAF_SIZE)"
| "full (BTreeNode ks cs cov) = (length ks \<ge> MAX_NODE_SIZE)"

fun collectAll :: "RoaringBitmap32 \<Rightarrow> 'a BTreeElement \<Rightarrow> error + RoaringBitmap32" where
  "collectAll acc (BTreeLeaf ks vs) = BTreeLeaf_collectAll acc ks vs"
| "collectAll acc (BTreeNode ks cs cov) = Inr (acc \<union> cov)"

text \<open>The constructor of \<open>BTreeNode\<close>: the covering set starts empty and every child's
  \<open>collectAll\<close> is unioned into it, in order.\<close>

fun collectAll_children :: "RoaringBitmap32 \<Rightarrow> 'a BTreeElement list \<Rightarrow> error + RoaringBitmap32" where
  "collectAll_children acc [] = Inr acc"
| "collectAll_children acc (c # cs) =
     (case collectAll acc c of
        Inl e \<Rightarrow> Inl e
      | Inr acc' \<Rightarrow> collectAll_children acc' cs)"

definition new_BTreeNode :: "'a list \<Rightarrow> 'a BTreeElement list \<Rightarrow> error + 'a BTreeElement" where
  "new_BTreeNode ks cs =
     (case collectAll_children {} cs of
        Inl e \<Rightarrow> Inl e
      | Inr cov \<Rightarrow> Inr (BTreeNode ks cs cov))"

text \<open>\<open>split\<close>: \<open>slice(0, m)\<close> is \<open>take m\<close> and \<open>slice(m)\<close> is \<open>drop m\<close>. On an element
  without keys \<open>keys[medianIdx]\<close> is \<open>undefined\<close>.\<close>

fun split :: "'a BTreeElement \<Rightarrow> error + 'a SplitResult" where
  "split (BTreeLeaf ks vs) =
     (let medianIdx = length ks div 2
      in case array_get ks medianIdx of
           None \<Rightarrow> Inl Undefined
         | Some m \<Rightarrow>
             Inr \<lparr>medianKey = m,
                  left = BTreeLeaf (take medianIdx ks) (take medianIdx vs),
                  right = BTreeLeaf (drop medianIdx ks) (drop medianIdx vs)\<rparr>)"
| "split (BTreeNode ks cs cov) =
     (let medianIdx = length ks div 2
      in case new_BTreeNode (take medianIdx ks) (take (medianIdx + 1) cs) of
           Inl e \<Rightarrow> Inl e
         | Inr l \<Rightarrow>
             (case new_BTreeNode (drop (medianIdx + 1) ks) (drop (medianIdx + 1) cs) of
                Inl e \<Rightarrow> Inl e
              | Inr r \<Rightarrow>
                  (case array_get ks medianIdx of
                     None \<Rightarrow> Inl Undefined
                   | Some m \<Rightarrow> Inr \<lparr>medianKey = m, left = l, right = r\<rparr>)))"

text \<open>\<open>_findChildIndex\<close>: the same loop as \<open>_findIndex\<close>, over the separator keys.\<close>

fun findChildIndex :: "'a::linorder \<Rightarrow> 'a list \<Rightarrow> nat" where
  "findChildIndex key [] = 0"
| "findChildIndex key (k # ks) = (if key \<ge> k then Suc (findChildIndex key ks) else 0)"

subsection \<open>Lookup and insertion\<close>

lemma array_get_size:
  "array_get cs i = Some c \<Longrightarrow> size c < Suc (size_list size cs)"
proof -
  assume "array_get cs i = Some c"
  then have "c \<in> set cs"
    by (auto simp: array_get_def split: if_splits)
  then have "size c \<le> size_list size cs"
    by (rule size_list_estimation') simp
  then show ?thesis by simp
qed

text \<open>\<open>get\<close>: a leaf looks the key up; an inner node descends into \<open>children[i]\<close>.\<close>

function get :: "'a::linorder \<Rightarrow> 'a BTreeElement \<Rightarrow> error + RoaringBitmap32 option" where
  "get key (BTreeLeaf ks vs) = Inr (BTreeLeaf_get key ks vs)"
| "get key (BTreeNode ks cs cov) =
     (case array_get cs (findChildIndex key ks) of
        None \<Rightarrow> Inl TypeError
      | Some c \<Rightarrow> get key c)"
  by pat_completeness auto
termination
  by (relation "measure (\<lambda>(key, e). size e)") (auto dest: array_get_size)

text \<open>
  Termination of \<open>insert\<close>. A call either descends into a child or, after splitting a full
  child, runs again on the same node. \<open>weight\<close> counts, over a subtree, the keys beyond 31 of
  every element; a split of a full element lowers it.
\<close>

fun weight :: "'a BTreeElement \<Rightarrow> nat" where
  "weight (BTreeLeaf ks vs) = length ks - 31"
| "weight (BTreeNode ks cs cov) = (length ks - 31) + sum_list (map weight cs)"

fun weight_below :: "'a BTreeElement \<Rightarrow> nat" where
  "weight_below (BTreeLeaf ks vs) = 0"
| "weight_below (BTreeNode ks cs cov) = sum_list (map weight cs)"

lemma array_get_Some: "array_get xs i = Some x \<longleftrightarrow> i < length xs \<and> xs ! i = x"
  by (auto simp: array_get_def)

lemma array_get_None: "array_get xs i = None \<longleftrightarrow> length xs \<le> i"
  by (auto simp: array_get_def)

lemma splice_update:
  "i < length cs \<Longrightarrow>
   (array_splice (Suc i) r cs)[i := l] = take i cs @ l # r # drop (Suc i) cs"
  by (simp add: array_splice_def take_Suc_conv_app_nth list_update_append)

lemma new_BTreeNode_Inr:
  "new_BTreeNode ks cs = Inr n \<Longrightarrow> \<exists>cov. n = BTreeNode ks cs cov"
  by (auto simp: new_BTreeNode_def split: sum.splits)

lemma weight_below_le: "weight_below e \<le> weight e"
  by (cases e) simp_all

lemma weight_take_drop:
  "sum_list (map weight (take k cs)) + sum_list (map weight (drop k cs)) = sum_list (map weight cs)"
proof -
  have "sum_list (map weight (take k cs @ drop k cs)) = sum_list (map weight cs)"
    by simp
  then show ?thesis
    by (simp only: map_append sum_list_append)
qed

lemma weight_split:
  assumes "full c" and "split c = Inr s"
  shows "weight (left s) + weight (right s) < weight c"
proof (cases c)
  case (BTreeLeaf ks vs)
  with assms show ?thesis
    by (auto simp: MAX_LEAF_SIZE_def Let_def array_get_Some split: option.splits)
next
  case (BTreeNode ks cs cov)
  let ?m = "length ks div 2"
  from assms BTreeNode obtain covl covr where
    l: "left s = BTreeNode (take ?m ks) (take (?m + 1) cs) covl" and
    r: "right s = BTreeNode (drop (?m + 1) ks) (drop (?m + 1) cs) covr"
    by (auto simp: Let_def split: sum.splits option.splits dest!: new_BTreeNode_Inr)
  from assms BTreeNode have n: "32 \<le> length ks"
    by (simp add: MAX_NODE_SIZE_def)
  have "weight (left s) + weight (right s) =
        (?m - 31) + (length ks - (?m + 1) - 31) +
        (sum_list (map weight (take (?m + 1) cs)) + sum_list (map weight (drop (?m + 1) cs)))"
    using n by (simp add: l r min_def)
  also have "\<dots> = (?m - 31) + (length ks - (?m + 1) - 31) + sum_list (map weight cs)"
    by (simp only: weight_take_drop)
  also have "\<dots> < weight c"
    using n by (simp add: BTreeNode)
  finally show ?thesis .
qed

lemma weight_splice:
  assumes "array_get cs i = Some c"
  shows "sum_list (map weight ((array_splice (Suc i) r cs)[i := l])) + weight c =
         sum_list (map weight cs) + weight l + weight r"
proof -
  from assms have i: "i < length cs" and c: "cs ! i = c"
    by (simp_all add: array_get_Some)
  have "cs = take i cs @ c # drop (Suc i) cs"
    using i c id_take_nth_drop [of i cs] by simp
  then have "sum_list (map weight cs) =
             sum_list (map weight (take i cs)) + weight c + sum_list (map weight (drop (Suc i) cs))"
    by (metis (no_types) add.assoc list.simps(9) map_append sum_list.Cons sum_list_append)
  then show ?thesis
    by (simp add: splice_update [OF i])
qed

lemma weight_member: "array_get cs i = Some c \<Longrightarrow> weight c \<le> sum_list (map weight cs)"
  by (auto simp: array_get_Some intro!: member_le_sum_list)

text \<open>\<open>insert\<close>: a leaf stores the pair; an inner node splits a full child first and runs
  again, and otherwise adds the document id to its covering set and descends.\<close>

function insert_BTreeElement :: "'a::linorder \<Rightarrow> uint32 \<Rightarrow> 'a BTreeElement \<Rightarrow> error + 'a BTreeElement" where
  "insert_BTreeElement key val (BTreeLeaf ks vs) = Inr (BTreeLeaf_insert key val ks vs)"
| "insert_BTreeElement key val (BTreeNode ks cs cov) =
     (let i = findChildIndex key ks
      in case array_get cs i of
           None \<Rightarrow> Inl TypeError
         | Some c \<Rightarrow>
             if full c then
               (case split c of
                  Inl e \<Rightarrow> Inl e
                | Inr s \<Rightarrow>
                    insert_BTreeElement key val
                      (BTreeNode (array_splice i (medianKey s) ks)
                         ((array_splice (i + 1) (right s) cs)[i := left s]) cov))
             else
               (case insert_BTreeElement key val c of
                  Inl e \<Rightarrow> Inl e
                | Inr c' \<Rightarrow> Inr (BTreeNode ks (cs[i := c']) (insert val cov))))"
  by pat_completeness auto
termination
proof (relation "measures [\<lambda>(key, val, e). weight_below e, \<lambda>(key, val, e). size e]", goal_cases)
  case 1
  show ?case by simp
next
  case (2 key val ks cs cov i c s)
  then have "weight (left s) + weight (right s) < weight c"
    by (intro weight_split)
  moreover from 2 have
    "sum_list (map weight ((array_splice (Suc i) (right s) cs)[i := left s])) + weight c =
     sum_list (map weight cs) + weight (left s) + weight (right s)"
    by (intro weight_splice) simp
  ultimately show ?case by simp
next
  case (3 key val ks cs cov i c)
  then have "weight_below c \<le> sum_list (map weight cs)"
    using weight_below_le [of c] weight_member [of cs i c] by simp
  moreover from 3 have "size c < Suc (size_list size cs)"
    by (intro array_get_size) simp
  ultimately show ?case by auto
qed

subsection \<open>Range collection\<close>

text \<open>
  An inner node first unions in every child that lies wholly on the qualifying side of
  the bound (\<open>collectAll\<close>), walking the separator keys from that side, and then recurses
  into the boundary child. The downward loops carry \<open>i + 1\<close>, which is also the index of the
  child the loop stops at; the upward loops carry \<open>i\<close>.
\<close>

fun BTreeNode_collectGt_loop :: "nat \<Rightarrow> RoaringBitmap32 \<Rightarrow> 'a::linorder \<Rightarrow> 'a list \<Rightarrow> 'a BTreeElement list \<Rightarrow> error + nat \<times> RoaringBitmap32" where
  "BTreeNode_collectGt_loop 0 acc key ks cs = Inr (0, acc)"
| "BTreeNode_collectGt_loop (Suc i) acc key ks cs =
     (case array_get ks i of
        None \<Rightarrow> Inr (Suc i, acc)
      | Some k \<Rightarrow>
          if k > key then
            (case array_get cs (Suc i) of
               None \<Rightarrow> Inl TypeError
             | Some c \<Rightarrow>
                 (case collectAll acc c of
                    Inl e \<Rightarrow> Inl e
                  | Inr acc' \<Rightarrow> BTreeNode_collectGt_loop i acc' key ks cs))
          else Inr (Suc i, acc))"

function collectGt :: "RoaringBitmap32 \<Rightarrow> 'a::linorder \<Rightarrow> 'a BTreeElement \<Rightarrow> error + RoaringBitmap32" where
  "collectGt acc key (BTreeLeaf ks vs) = BTreeLeaf_collectGt (length ks) acc key ks vs"
| "collectGt acc key (BTreeNode ks cs cov) =
     (case BTreeNode_collectGt_loop (length ks) acc key ks cs of
        Inl e \<Rightarrow> Inl e
      | Inr (j, acc') \<Rightarrow>
          (case array_get cs j of
             None \<Rightarrow> Inl TypeError
           | Some c \<Rightarrow> collectGt acc' key c))"
  by pat_completeness auto
termination
  by (relation "measure (\<lambda>(acc, key, e). size e)") (auto dest: array_get_size)

fun BTreeNode_collectGte_loop :: "nat \<Rightarrow> RoaringBitmap32 \<Rightarrow> 'a::linorder \<Rightarrow> 'a list \<Rightarrow> 'a BTreeElement list \<Rightarrow> error + nat \<times> RoaringBitmap32" where
  "BTreeNode_collectGte_loop 0 acc key ks cs = Inr (0, acc)"
| "BTreeNode_collectGte_loop (Suc i) acc key ks cs =
     (case array_get ks i of
        None \<Rightarrow> Inr (Suc i, acc)
      | Some k \<Rightarrow>
          if k \<ge> key then
            (case array_get cs (Suc i) of
               None \<Rightarrow> Inl TypeError
             | Some c \<Rightarrow>
                 (case collectAll acc c of
                    Inl e \<Rightarrow> Inl e
                  | Inr acc' \<Rightarrow> BTreeNode_collectGte_loop i acc' key ks cs))
          else Inr (Suc i, acc))"

function collectGte :: "RoaringBitmap32 \<Rightarrow> 'a::linorder \<Rightarrow> 'a BTreeElement \<Rightarrow> error + RoaringBitmap32" where
  "collectGte acc key (BTreeLeaf ks vs) = BTreeLeaf_collectGte (length ks) acc key ks vs"
| "collectGte acc key (BTreeNode ks cs cov) =
     (case BTreeNode_collectGte_loop (length ks) acc key ks cs of
        Inl e \<Rightarrow> Inl e
      | Inr (j, acc') \<Rightarrow>
          (case array_get cs j of
             None \<Rightarrow> Inl TypeError
           | Some c \<Rightarrow> collectGte acc' key c))"
  by pat_completeness auto
termination
  by (relation "measure (\<lambda>(acc, key, e). size e)") (auto dest: array_get_size)

function BTreeNode_collectLt_loop :: "nat \<Rightarrow> RoaringBitmap32 \<Rightarrow> 'a::linorder \<Rightarrow> 'a list \<Rightarrow> 'a BTreeElement list \<Rightarrow> error + nat \<times> RoaringBitmap32" where
  "BTreeNode_collectLt_loop i acc key ks cs =
     (case array_get ks i of
        None \<Rightarrow> Inr (i, acc)
      | Some k \<Rightarrow>
          if k < key then
            (case array_get cs i of
               None \<Rightarrow> Inl TypeError
             | Some c \<Rightarrow>
                 (case collectAll acc c of
                    Inl e \<Rightarrow> Inl e
                  | Inr acc' \<Rightarrow> BTreeNode_collectLt_loop (Suc i) acc' key ks cs))
          else Inr (i, acc))"
  by pat_completeness auto
termination
  by (relation "measure (\<lambda>(i, acc, key, ks, cs). length ks - i)") (auto simp: array_get_Some)

function collectLt :: "RoaringBitmap32 \<Rightarrow> 'a::linorder \<Rightarrow> 'a BTreeElement \<Rightarrow> error + RoaringBitmap32" where
  "collectLt acc key (BTreeLeaf ks vs) = BTreeLeaf_collectLt acc key ks vs"
| "collectLt acc key (BTreeNode ks cs cov) =
     (case BTreeNode_collectLt_loop 0 acc key ks cs of
        Inl e \<Rightarrow> Inl e
      | Inr (j, acc') \<Rightarrow>
          (case array_get cs j of
             None \<Rightarrow> Inl TypeError
           | Some c \<Rightarrow> collectLt acc' key c))"
  by pat_completeness auto
termination
  by (relation "measure (\<lambda>(acc, key, e). size e)") (auto dest: array_get_size)

function BTreeNode_collectLte_loop :: "nat \<Rightarrow> RoaringBitmap32 \<Rightarrow> 'a::linorder \<Rightarrow> 'a list \<Rightarrow> 'a BTreeElement list \<Rightarrow> error + nat \<times> RoaringBitmap32" where
  "BTreeNode_collectLte_loop i acc key ks cs =
     (case array_get ks i of
        None \<Rightarrow> Inr (i, acc)
      | Some k \<Rightarrow>
          if k \<le> key then
            (case array_get cs i of
               None \<Rightarrow> Inl TypeError
             | Some c \<Rightarrow>
                 (case collectAll acc c of
                    Inl e \<Rightarrow> Inl e
                  | Inr acc' \<Rightarrow> BTreeNode_collectLte_loop (Suc i) acc' key ks cs))
          else Inr (i, acc))"
  by pat_completeness auto
termination
  by (relation "measure (\<lambda>(i, acc, key, ks, cs). length ks - i)") (auto simp: array_get_Some)

function collectLte :: "RoaringBitmap32 \<Rightarrow> 'a::linorder \<Rightarrow> 'a BTreeElement \<Rightarrow> error + RoaringBitmap32" where
  "collectLte acc key (BTreeLeaf ks vs) = BTreeLeaf_collectLte acc key ks vs"
| "collectLte acc key (BTreeNode ks cs cov) =
     (case BTreeNode_collectLte_loop 0 acc key ks cs of
        Inl e \<Rightarrow> Inl e
      | Inr (j, acc') \<Rightarrow>
          (case array_get cs j of
             None \<Rightarrow> Inl TypeError
           | Some c \<Rightarrow> collectLte acc' key c))"
  by pat_completeness auto
termination
  by (relation "measure (\<lambda>(acc, key, e). size e)") (auto dest: array_get_size)

subsection \<open>The tree\<close>

definition new_BTree :: "'a BTree" where
  "new_BTree = \<lparr>root = BTreeLeaf [] []\<rparr>"

text \<open>\<open>BTree.insert\<close>: a full root is split and wrapped in a new inner node with the
  promoted key as its only separator, and the insertion runs again.\<close>

function insert_BTree :: "'a::linorder \<Rightarrow> uint32 \<Rightarrow> 'a BTree \<Rightarrow> error + 'a BTree" where
  "insert_BTree key val t =
     (if full (root t) then
        (case split (root t) of
           Inl e \<Rightarrow> Inl e
         | Inr s \<Rightarrow>
             (case new_BTreeNode [medianKey s] [left s, right s] of
                Inl e \<Rightarrow> Inl e
              | Inr r \<Rightarrow> insert_BTree key val (t\<lparr>root := r\<rparr>)))
      else
        (case insert_BTreeElement key val (root t) of
           Inl e \<Rightarrow> Inl e
         | Inr r \<Rightarrow> Inr (t\<lparr>root := r\<rparr>)))"
  by pat_completeness auto
termination
  by (relation "measure (\<lambda>(key, val, t). if full (root t) then 1 else 0)")
     (auto simp: MAX_NODE_SIZE_def dest!: new_BTreeNode_Inr)

declare insert_BTreeElement.simps(2) [simp del]
declare insert_BTree.simps [simp del]

definition get_BTree :: "'a::linorder \<Rightarrow> 'a BTree \<Rightarrow> error + RoaringBitmap32 option" where
  "get_BTree key t = get key (root t)"

definition gt :: "'a::linorder \<Rightarrow> 'a BTree \<Rightarrow> error + RoaringBitmap32" where
  "gt key t = collectGt {} key (root t)"

definition gte :: "'a::linorder \<Rightarrow> 'a BTree \<Rightarrow> error + RoaringBitmap32" where
  "gte key t = collectGte {} key (root t)"

definition lt :: "'a::linorder \<Rightarrow> 'a BTree \<Rightarrow> error + RoaringBitmap32" where
  "lt key t = collectLt {} key (root t)"

definition lte :: "'a::linorder \<Rightarrow> 'a BTree \<Rightarrow> error + RoaringBitmap32" where
  "lte key t = collectLte {} key (root t)"

text \<open>A sequence of \<open>insert(key, docId)\<close> calls, in order; an error ends it.\<close>

fun inserts :: "('a::linorder \<times> uint32) list \<Rightarrow> 'a BTree \<Rightarrow> error + 'a BTree" where
  "inserts [] t = Inr t"
| "inserts ((key, val) # ops) t =
     (case insert_BTree key val t of
        Inl e \<Rightarrow> Inl e
      | Inr t' \<Rightarrow> inserts ops t')"

section \<open>The selector of \<open>src/unnamed/part_000\<close>\<close>

text \<open>
  \<open>results.select(i)\<close> of the external bitmap: the \<open>i\<close>-th smallest document id, \<open>undefined\<close>
  when \<open>i\<close> is not below the size.
\<close>

definition select :: "RoaringBitmap32 \<Rightarrow> nat \<Rightarrow> uint32 option" where
  "select results i = array_get (sorted_list_of_set results) i"

text \<open>
  \<open>quickSelect\<close>. The first argument is the sequence of values \<open>Math.random()\<close> returns
  (each at least 0 and below 1), one per call of the function; a call that finds it empty
  has run out of draws and gives \<open>None\<close>, so the length of the list bounds the number of
  calls. \<open>sortDocVals\<close> is the \<open>Map\<close> from document id to sort value.
\<close>

fun quickSelect :: "rat list \<Rightarrow> RoaringBitmap32 \<Rightarrow> nat \<Rightarrow> 'a::linorder BTree \<Rightarrow> (uint32 \<rightharpoonup> 'a) \<Rightarrow> (error + uint32) option" where
  "quickSelect [] results cardinality sortField sortDocVals = None"
| "quickSelect (r # rs) results cardinality sortField sortDocVals =
     (let pivotIndex = nat \<lfloor>r * of_nat cardinality\<rfloor>
      in case select results pivotIndex of
           None \<Rightarrow> Some (Inl Undefined)
         | Some pivot \<Rightarrow>
             (case sortDocVals pivot of
                None \<Rightarrow> Some (Inl Undefined)
              | Some pivotValue \<Rightarrow>
                  (case gt pivotValue sortField of
                     Inl e \<Rightarrow> Some (Inl e)
                   | Inr higher \<Rightarrow>
                       (let leftResults = results \<inter> higher;
                            cardinality' = card leftResults
                        in if cardinality' = 0 then Some (Inr pivot)
                           else quickSelect rs leftResults cardinality' sortField sortDocVals))))"

section \<open>Specification\<close>

subsection \<open>What a subtree holds\<close>

text \<open>Every key of a subtree: the keys of its leaves and the separator keys of its inner nodes.\<close>

fun allkeys :: "'a BTreeElement \<Rightarrow> 'a set" where
  "allkeys (BTreeLeaf ks vs) = set ks"
| "allkeys (BTreeNode ks cs cov) = set ks \<union> (\<Union>c\<in>set cs. allkeys c)"

text \<open>The keys stored in the leaves of a subtree: the keys the tree indexes.\<close>

fun leafkeys :: "'a BTreeElement \<Rightarrow> 'a set" where
  "leafkeys (BTreeLeaf ks vs) = set ks"
| "leafkeys (BTreeNode ks cs cov) = (\<Union>c\<in>set cs. leafkeys c)"

text \<open>The pairs \<open>(key, docId)\<close> a subtree indexes: \<open>docId\<close> is in the posting set stored with
  \<open>key\<close> in a leaf.\<close>

fun pairs :: "'a BTreeElement \<Rightarrow> ('a \<times> uint32) set" where
  "pairs (BTreeLeaf ks vs) = (\<Union>(k, S)\<in>set (zip ks vs). {k} \<times> S)"
| "pairs (BTreeNode ks cs cov) = (\<Union>c\<in>set cs. pairs c)"

text \<open>The union of the posting sets of every key stored in a subtree.\<close>

fun posting_union :: "'a BTreeElement \<Rightarrow> RoaringBitmap32" where
  "posting_union (BTreeLeaf ks vs) = (\<Union>(k, S)\<in>set (zip ks vs). S)"
| "posting_union (BTreeNode ks cs cov) = (\<Union>c\<in>set cs. posting_union c)"

text \<open>Separator \<open>i\<close> lies above every key of child \<open>i\<close> and not above any key of child
  \<open>i + 1\<close>.\<close>

definition separated :: "'a::linorder list \<Rightarrow> 'a BTreeElement list \<Rightarrow> bool" where
  "separated ks cs =
     (\<forall>i<length ks. (\<forall>k\<in>allkeys (cs ! i). k < ks ! i) \<and> (\<forall>k\<in>allkeys (cs ! Suc i). ks ! i \<le> k))"

text \<open>
  The invariant of the elements of a tree: a leaf has one posting set per key, at most
  \<open>MAX_LEAF_SIZE\<close> keys, and increasing keys; an inner node has one child more than keys, at
  most \<open>MAX_NODE_SIZE\<close> keys, increasing and separating its children, a covering set equal to
  the union of the posting sets below it, and children that satisfy the invariant.
\<close>

fun invar :: "'a::linorder BTreeElement \<Rightarrow> bool" where
  "invar (BTreeLeaf ks vs) =
     (length vs = length ks \<and> length ks \<le> MAX_LEAF_SIZE \<and> sorted_wrt (<) ks)"
| "invar (BTreeNode ks cs cov) =
     (length cs = Suc (length ks) \<and> length ks \<le> MAX_NODE_SIZE \<and> sorted_wrt (<) ks \<and>
      separated ks cs \<and>
      cov = (\<Union>c\<in>set cs. posting_union c) \<and>
      (\<forall>c\<in>set cs. invar c))"

subsection \<open>The properties of a tree\<close>

text \<open>The covering set of every inner node is the union of the posting sets below it.\<close>

fun covering_exact :: "'a BTreeElement \<Rightarrow> bool" where
  "covering_exact (BTreeLeaf ks vs) = True"
| "covering_exact (BTreeNode ks cs cov) =
     (cov = posting_union (BTreeNode ks cs cov) \<and> (\<forall>c\<in>set cs. covering_exact c))"

text \<open>The keys of every leaf are strictly increasing.\<close>

fun leaves_increasing :: "'a::linorder BTreeElement \<Rightarrow> bool" where
  "leaves_increasing (BTreeLeaf ks vs) = sorted_wrt (<) ks"
| "leaves_increasing (BTreeNode ks cs cov) = (\<forall>c\<in>set cs. leaves_increasing c)"

text \<open>No leaf and no inner node holds more keys than its capacity.\<close>

fun within_capacity :: "'a BTreeElement \<Rightarrow> bool" where
  "within_capacity (BTreeLeaf ks vs) = (length ks \<le> MAX_LEAF_SIZE)"
| "within_capacity (BTreeNode ks cs cov) =
     (length ks \<le> MAX_NODE_SIZE \<and> (\<forall>c\<in>set cs. within_capacity c))"

subsection \<open>Split and insertion\<close>

text \<open>What the two halves of a split have to do with the element split.\<close>

definition halves :: "'a::linorder BTreeElement \<Rightarrow> 'a \<Rightarrow> 'a BTreeElement \<Rightarrow> 'a BTreeElement \<Rightarrow> bool" where
  "halves c m l r =
     (invar l \<and> invar r \<and> \<not> full l \<and> \<not> full r \<and>
      leafkeys l \<union> leafkeys r = leafkeys c \<and>
      pairs l \<union> pairs r = pairs c \<and>
      posting_union l \<union> posting_union r = posting_union c \<and>
      allkeys l \<union> allkeys r \<union> {m} = allkeys c \<and>
      (\<forall>k\<in>allkeys l. k < m) \<and> (\<forall>k\<in>allkeys r. m \<le> k) \<and> (\<exists>k\<in>allkeys c. k < m))"

text \<open>
  \<open>room\<close>: the element can take one insertion. An inner node has room when it is not full,
  and also when it is full but the child the key goes to is not: then no split reaches it.
\<close>

fun room :: "'a::linorder \<Rightarrow> 'a BTreeElement \<Rightarrow> bool" where
  "room key (BTreeLeaf ks vs) = (\<not> full (BTreeLeaf ks vs))"
| "room key (BTreeNode ks cs cov) =
     (\<not> full (BTreeNode ks cs cov) \<or> \<not> full (cs ! findChildIndex key ks))"

text \<open>\<open>inserted\<close>: what an insertion of \<open>(key, val)\<close> into \<open>e\<close> has to give.\<close>

definition inserted :: "'a::linorder \<Rightarrow> uint32 \<Rightarrow> 'a BTreeElement \<Rightarrow> 'a BTreeElement \<Rightarrow> bool" where
  "inserted key val e e' =
     (invar e' \<and>
      allkeys e' = insert key (allkeys e) \<and>
      leafkeys e' = insert key (leafkeys e) \<and>
      pairs e' = insert (key, val) (pairs e) \<and>
      posting_union e' = insert val (posting_union e))"

subsection \<open>An example with an inner node\<close>

text \<open>Keys 0 to 32 inserted in order, each with its own number as document id: the 33rd
  insertion finds the root leaf full and splits it.\<close>

definition example_ops :: "(nat \<times> uint32) list" where
  "example_ops =
     [(0, 0), (1, 1), (2, 2), (3, 3), (4, 4), (5, 5), (6, 6), (7, 7), (8, 8), (9, 9), (10, 10),
      (11, 11), (12, 12), (13, 13), (14, 14), (15, 15), (16, 16), (17, 17), (18, 18), (19, 19),
      (20, 20), (21, 21), (22, 22), (23, 23), (24, 24), (25, 25), (26, 26), (27, 27), (28, 28),
      (29, 29), (30, 30), (31, 31), (32, 32)]"

definition example_tree :: "nat BTree" where
  "example_tree =
     \<lparr>root = BTreeNode [16]
        [BTreeLeaf [0, 1, 2, 3, 4, 5, 6, 7, 8, 9, 10, 11, 12, 13, 14, 15]
           [{0}, {1}, {2}, {3}, {4}, {5}, {6}, {7}, {8}, {9}, {10}, {11}, {12}, {13}, {14}, {15}],
         BTreeLeaf [16, 17, 18, 19, 20, 21, 22, 23, 24, 25, 26, 27, 28, 29, 30, 31, 32]
           [{16}, {17}, {18}, {19}, {20}, {21}, {22}, {23}, {24}, {25}, {26}, {27}, {28}, {29},
            {30}, {31}, {32}]]
        {0, 1, 2, 3, 4, 5, 6, 7, 8, 9, 10, 11, 12, 13, 14, 15, 16, 17, 18, 19, 20, 21, 22, 23,
         24, 25, 26, 27, 28, 29, 30, 31, 32}\<rparr>"

text \<open>A full leaf: keys 0 to 31, each with its own number as document id.\<close>

definition example_full_leaf :: "nat BTreeElement" where
  "example_full_leaf =
     BTreeLeaf [0, 1, 2, 3, 4, 5, 6, 7, 8, 9, 10, 11, 12, 13, 14, 15, 16, 17, 18, 19, 20, 21,
                22, 23, 24, 25, 26, 27, 28, 29, 30, 31]
       [{0}, {1}, {2}, {3}, {4}, {5}, {6}, {7}, {8}, {9}, {10}, {11}, {12}, {13}, {14}, {15},
        {16}, {17}, {18}, {19}, {20}, {21}, {22}, {23}, {24}, {25}, {26}, {27}, {28}, {29},
        {30}, {31}]"

text \<open>The scenario of the specification: keys 5, 3, 8, 1, 9, 2, 7 with document ids 100 to 106,
  and the tree the seven insertions build (a single leaf).\<close>

definition scenario_ops :: "(nat \<times> uint32) list" where
  "scenario_ops = [(5, 100), (3, 101), (8, 102), (1, 103), (9, 104), (2, 105), (7, 106)]"

definition scenario_tree :: "nat BTree" where
  "scenario_tree =
     \<lparr>root = BTreeLeaf [1, 2, 3, 5, 7, 8, 9] [{103}, {105}, {101}, {100}, {106}, {102}, {104}]\<rparr>"

section \<open>Verification\<close>

subsection \<open>The search loop\<close>

lemma findChildIndex_eq: "findChildIndex key ks = findIndex key ks"
  by (induction ks) simp_all

lemma findIndex_takeWhile: "findIndex key ks = length (takeWhile (\<lambda>k. k \<le> key) ks)"
  by (induction ks) simp_all

lemma findIndex_le: "findIndex key ks \<le> length ks"
  by (induction ks) simp_all

lemma findIndex_below: "j < findIndex key ks \<Longrightarrow> ks ! j \<le> key"
proof (induction ks arbitrary: j)
  case Nil
  then show ?case by simp
next
  case (Cons k ks)
  then show ?case by (cases j) (auto split: if_splits)
qed

lemma findIndex_at: "findIndex key ks < length ks \<Longrightarrow> key < ks ! findIndex key ks"
  by (induction ks) auto

lemma findIndex_above:
  assumes "sorted_wrt (<) ks" "findIndex key ks \<le> j" "j < length ks"
  shows "key < ks ! j"
proof -
  let ?i = "findIndex key ks"
  have "key < ks ! ?i" using assms by (intro findIndex_at) simp
  moreover have "ks ! ?i \<le> ks ! j"
  proof (cases "?i = j")
    case False
    with assms have "?i < j" by simp
    from sorted_wrt_nth_less [OF assms(1) this assms(3)] show ?thesis by simp
  qed simp
  ultimately show ?thesis by simp
qed

lemma findIndex_splice:
  assumes "sorted_wrt (<) ks"
  shows "findIndex key (array_splice (findIndex key ks) m ks) =
         (if m \<le> key then Suc (findIndex key ks) else findIndex key ks)"
proof -
  let ?P = "\<lambda>k. k \<le> key"
  let ?i = "findIndex key ks"
  have t: "take ?i ks = takeWhile ?P ks" and d: "drop ?i ks = dropWhile ?P ks"
    by (simp_all add: findIndex_takeWhile takeWhile_eq_take [symmetric] dropWhile_eq_drop [symmetric])
  have all: "\<forall>x\<in>set (takeWhile ?P ks). ?P x"
    by (auto dest: set_takeWhileD)
  have hd: "dropWhile ?P ks = [] \<or> \<not> ?P (hd (dropWhile ?P ks))"
    using hd_dropWhile [of ?P ks] by auto
  have "takeWhile ?P (takeWhile ?P ks @ m # dropWhile ?P ks) =
        (if ?P m then takeWhile ?P ks @ [m] else takeWhile ?P ks)"
  proof (cases "?P m")
    case True
    have "takeWhile ?P (dropWhile ?P ks) = []"
    proof (cases "dropWhile ?P ks")
      case (Cons x xs)
      with hd have "\<not> ?P x" by simp
      then show ?thesis by (simp only: Cons takeWhile.simps if_False)
    next
      case Nil
      then show ?thesis by (simp only: takeWhile.simps)
    qed
    then have "takeWhile ?P (m # dropWhile ?P ks) = [m]"
      using True by (simp only: takeWhile.simps if_True)
    then show ?thesis using True all by (simp only: takeWhile_append2 if_True)
  next
    case False
    then show ?thesis using all by (simp add: takeWhile_append2)
  qed
  then show ?thesis
    unfolding array_splice_def t d
    by (simp add: findIndex_takeWhile del: takeWhile_append2 takeWhile.simps)
qed

subsection \<open>Lists\<close>

lemma splice_nth:
  "i \<le> length xs \<Longrightarrow> j \<le> length xs \<Longrightarrow>
   array_splice i x xs ! j = (if j < i then xs ! j else if j = i then x else xs ! (j - 1))"
  by (auto simp: array_splice_def nth_append nth_Cons' min_def)

lemma splice_length [simp]: "length (array_splice i x xs) = Suc (length xs)"
  by (simp add: array_splice_def)

lemma splice_set: "set (array_splice i x xs) = insert x (set xs)"
proof -
  have "set (take i xs) \<union> set (drop i xs) = set xs"
    by (metis append_take_drop_id set_append)
  then show ?thesis by (auto simp: array_splice_def)
qed

lemma set_nth_decomp:
  assumes "i < length cs"
  shows "set cs = set (take i cs) \<union> {cs ! i} \<union> set (drop (Suc i) cs)"
proof -
  have "set cs = set (take i cs @ cs ! i # drop (Suc i) cs)"
    by (rule arg_cong [where f = set]) (rule id_take_nth_drop [OF assms])
  also have "\<dots> = set (take i cs) \<union> {cs ! i} \<union> set (drop (Suc i) cs)"
    by simp
  finally show ?thesis .
qed

lemma UN_update:
  assumes "i < length cs" "f c' = f (cs ! i) \<union> X"
  shows "(\<Union>c\<in>set (cs[i := c']). f c) = (\<Union>c\<in>set cs. f c) \<union> X"
proof -
  have "set (cs[i := c']) = set (take i cs) \<union> {c'} \<union> set (drop (Suc i) cs)"
    using assms(1) by (simp add: upd_conv_take_nth_drop)
  moreover note set_nth_decomp [OF assms(1)]
  ultimately show ?thesis using assms(2) by auto
qed

lemma UN_split:
  assumes "i < length cs" "f l \<union> f r = f (cs ! i)"
  shows "(\<Union>c\<in>set (take i cs @ l # r # drop (Suc i) cs). f c) = (\<Union>c\<in>set cs. f c)"
proof -
  have "(\<Union>c\<in>set (take i cs @ l # r # drop (Suc i) cs). f c) =
        (\<Union>c\<in>set (take i cs). f c) \<union> f (cs ! i) \<union> (\<Union>c\<in>set (drop (Suc i) cs). f c)"
    using assms(2) by auto
  also have "\<dots> = (\<Union>c\<in>set (take i cs) \<union> {cs ! i} \<union> set (drop (Suc i) cs). f c)"
    by blast
  finally show ?thesis
    by (simp only: set_nth_decomp [OF assms(1), symmetric])
qed

subsection \<open>Leaves\<close>

lemma leaf_find:
  assumes "sorted_wrt (<) ks" "key \<in> set ks"
  shows "\<exists>j<length ks. ks ! j = key \<and> findIndex key ks = Suc j"
proof -
  from assms(2) obtain j where j: "j < length ks" "ks ! j = key"
    by (auto simp: in_set_conv_nth)
  let ?i = "findIndex key ks"
  have "j < ?i"
  proof (rule ccontr)
    assume "\<not> j < ?i"
    then have "key < ks ! j"
      using assms(1) j(1) by (intro findIndex_above) simp_all
    with j(2) show False by simp
  qed
  moreover have "\<not> Suc j < ?i"
  proof
    assume a: "Suc j < ?i"
    then have "ks ! Suc j \<le> key" by (rule findIndex_below)
    moreover have "Suc j < length ks"
      using a findIndex_le [of key ks] by simp
    then have "ks ! j < ks ! Suc j"
      using sorted_wrt_nth_less [OF assms(1), of j "Suc j"] by simp
    ultimately show False using j(2) by simp
  qed
  ultimately have "?i = Suc j" by simp
  with j show ?thesis by blast
qed

lemma leaf_get_in:
  assumes "sorted_wrt (<) ks" "length vs = length ks" "key \<in> set ks"
  shows "\<exists>j<length ks. ks ! j = key \<and> findIndex key ks = Suc j \<and>
           BTreeLeaf_get key ks vs = Some (vs ! j)"
proof -
  from leaf_find [OF assms(1,3)] obtain j where
    j: "j < length ks" "ks ! j = key" "findIndex key ks = Suc j" by blast
  then have "BTreeLeaf_get key ks vs = Some (vs ! j)"
    using assms(2) by (simp add: BTreeLeaf_get_def array_get_def)
  with j show ?thesis by blast
qed

lemma leaf_get_notin:
  assumes "key \<notin> set ks"
  shows "BTreeLeaf_get key ks vs = None"
proof -
  let ?n = "findIndex key ks"
  have "array_get ks (?n - 1) \<noteq> Some key"
  proof
    assume "array_get ks (?n - 1) = Some key"
    then have "?n - 1 < length ks" and "ks ! (?n - 1) = key"
      by (simp_all only: array_get_Some)
    then have "key \<in> set ks"
      using nth_mem [of "?n - 1" ks] by (simp only:)
    with assms show False by simp
  qed
  then show ?thesis
    unfolding BTreeLeaf_get_def Let_def by (simp only: if_False if_cancel)
qed

lemma zip_splice:
  "length ks = length vs \<Longrightarrow>
   zip (array_splice i k ks) (array_splice i v vs) = array_splice i (k, v) (zip ks vs)"
  by (simp add: array_splice_def take_zip drop_zip)

lemma sorted_splice:
  assumes "sorted_wrt (<) ks"
    and lo: "\<forall>j<i. j < length ks \<longrightarrow> ks ! j < (m::'a::linorder)"
    and hi: "\<forall>j. i \<le> j \<and> j < length ks \<longrightarrow> m < ks ! j"
  shows "sorted_wrt (<) (array_splice i m ks)"
proof -
  have a: "\<forall>x\<in>set (take i ks). x < m"
    using lo by (auto simp: in_set_conv_nth)
  have b: "\<forall>y\<in>set (drop i ks). m < y"
    using hi by (auto simp: in_set_conv_nth)
  have c: "sorted_wrt (<) (take i ks)" "sorted_wrt (<) (drop i ks)"
    using assms(1) by (simp_all add: sorted_wrt_take sorted_wrt_drop)
  from a b have "\<forall>x\<in>set (take i ks). \<forall>y\<in>set (drop i ks). x < y"
    by fastforce
  with a b c show ?thesis
    by (simp add: array_splice_def sorted_wrt_append)
qed

lemma leaf_insert_new:
  assumes "key \<notin> set ks"
  shows "BTreeLeaf_insert key val ks vs =
         BTreeLeaf (array_splice (findIndex key ks) key ks) (array_splice (findIndex key ks) {val} vs)"
  by (simp add: BTreeLeaf_insert_def Let_def leaf_get_notin [OF assms])

lemma leaf_insert_old:
  assumes "sorted_wrt (<) ks" "length vs = length ks" "key \<in> set ks"
  shows "\<exists>j<length ks. ks ! j = key \<and>
           BTreeLeaf_insert key val ks vs = BTreeLeaf ks (vs[j := insert val (vs ! j)])"
proof -
  from leaf_get_in [OF assms] obtain j where
    "j < length ks" "ks ! j = key" "findIndex key ks = Suc j" "BTreeLeaf_get key ks vs = Some (vs ! j)"
    by blast
  then show ?thesis
    by (auto simp: BTreeLeaf_insert_def)
qed

lemma sorted_insert_new:
  assumes "sorted_wrt (<) ks" "key \<notin> set ks"
  shows "sorted_wrt (<) (array_splice (findIndex key ks) key ks)"
proof (rule sorted_splice [OF assms(1)])
  show "\<forall>j<findIndex key ks. j < length ks \<longrightarrow> ks ! j < key"
  proof (intro allI impI)
    fix j assume "j < findIndex key ks" "j < length ks"
    then have "ks ! j \<le> key" "ks ! j \<in> set ks"
      by (simp_all add: findIndex_below)
    with assms(2) show "ks ! j < key" by (cases "ks ! j = key") auto
  qed
  show "\<forall>j. findIndex key ks \<le> j \<and> j < length ks \<longrightarrow> key < ks ! j"
    using assms(1) by (auto intro: findIndex_above)
qed

text \<open>The effect of \<open>BTreeLeaf.insert\<close> on a leaf with parallel arrays and increasing keys.\<close>

lemma leaf_insert:
  assumes "sorted_wrt (<) ks" "length vs = length ks"
  shows "\<exists>ks' vs'. BTreeLeaf_insert key val ks vs = BTreeLeaf ks' vs' \<and>
           length vs' = length ks' \<and> sorted_wrt (<) ks' \<and> length ks' \<le> Suc (length ks) \<and>
           set ks' = insert key (set ks) \<and>
           pairs (BTreeLeaf ks' vs') = insert (key, val) (pairs (BTreeLeaf ks vs)) \<and>
           posting_union (BTreeLeaf ks' vs') = insert val (posting_union (BTreeLeaf ks vs))"
proof (cases "key \<in> set ks")
  case True
  from leaf_insert_old [OF assms True] obtain j where
    j: "j < length ks" "ks ! j = key" and
    r: "BTreeLeaf_insert key val ks vs = BTreeLeaf ks (vs[j := insert val (vs ! j)])"
    by blast
  let ?vs = "vs[j := insert val (vs ! j)]"
  have "ks[j := ks ! j] = ks"
    by (rule list_update_id)
  with j(2) have "ks[j := key] = ks"
    by simp
  then have z: "zip ks ?vs = (zip ks vs)[j := (key, insert val (vs ! j))]"
    by (simp add: update_zip)
  have jz: "j < length (zip ks vs)" "zip ks vs ! j = (key, vs ! j)"
    using j assms(2) by simp_all
  have "(\<Union>p\<in>set (zip ks ?vs). {fst p} \<times> snd p) = (\<Union>p\<in>set (zip ks vs). {fst p} \<times> snd p) \<union> {(key, val)}"
    unfolding z by (rule UN_update [OF jz(1)]) (auto simp: jz(2))
  then have p: "pairs (BTreeLeaf ks ?vs) = insert (key, val) (pairs (BTreeLeaf ks vs))"
    by (simp add: case_prod_unfold)
  have "(\<Union>p\<in>set (zip ks ?vs). snd p) = (\<Union>p\<in>set (zip ks vs). snd p) \<union> {val}"
    unfolding z by (rule UN_update [OF jz(1)]) (auto simp: jz(2))
  then have u: "posting_union (BTreeLeaf ks ?vs) = insert val (posting_union (BTreeLeaf ks vs))"
    by (simp add: case_prod_unfold)
  show ?thesis
  proof (rule exI [where x = ks], rule exI [where x = ?vs], intro conjI)
    show "set ks = insert key (set ks)" using True by auto
    show "length ks \<le> Suc (length ks)" by simp
    show "length ?vs = length ks" using assms(2) by simp
  qed (rule r assms(1) p u)+
next
  case False
  let ?i = "findIndex key ks"
  let ?ks = "array_splice ?i key ks" and ?vs = "array_splice ?i {val} vs"
  have r: "BTreeLeaf_insert key val ks vs = BTreeLeaf ?ks ?vs"
    by (rule leaf_insert_new [OF False])
  have z: "set (zip ?ks ?vs) = insert (key, {val}) (set (zip ks vs))"
    using assms(2) by (simp add: zip_splice splice_set)
  have p: "pairs (BTreeLeaf ?ks ?vs) = insert (key, val) (pairs (BTreeLeaf ks vs))"
    by (simp add: z)
  have u: "posting_union (BTreeLeaf ?ks ?vs) = insert val (posting_union (BTreeLeaf ks vs))"
    by (simp add: z)
  have s: "sorted_wrt (<) ?ks"
    by (rule sorted_insert_new [OF assms(1) False])
  show ?thesis
  proof (rule exI [where x = ?ks], rule exI [where x = ?vs], intro conjI)
    show "set ?ks = insert key (set ks)" by (rule splice_set)
    show "length ?ks \<le> Suc (length ks)" by simp
    show "length ?vs = length ?ks" using assms(2) by simp
  qed (rule r s p u)+
qed

subsection \<open>Construction and split\<close>

lemma leaf_collectAll:
  "length vs = length ks \<Longrightarrow>
   BTreeLeaf_collectAll acc ks vs = Inr (acc \<union> (\<Union>(k, S)\<in>set (zip ks vs). S))"
proof (induction acc ks vs rule: BTreeLeaf_collectAll.induct)
  case (3 acc k ks v vs)
  then show ?case by (simp add: Un_assoc)
qed simp_all

lemma collectAll_invar: "invar c \<Longrightarrow> collectAll acc c = Inr (acc \<union> posting_union c)"
  by (cases c) (simp_all add: leaf_collectAll)

lemma collectAll_children_invar:
  "\<forall>c\<in>set cs. invar c \<Longrightarrow>
   collectAll_children acc cs = Inr (acc \<union> (\<Union>c\<in>set cs. posting_union c))"
proof (induction cs arbitrary: acc)
  case (Cons c cs)
  then show ?case by (simp add: collectAll_invar Un_assoc)
qed simp

lemma new_BTreeNode_invar:
  "\<forall>c\<in>set cs. invar c \<Longrightarrow>
   new_BTreeNode ks cs = Inr (BTreeNode ks cs (\<Union>c\<in>set cs. posting_union c))"
  by (simp add: new_BTreeNode_def collectAll_children_invar)

lemma split_leaf:
  "ks \<noteq> [] \<Longrightarrow>
   split (BTreeLeaf ks vs) =
     Inr \<lparr>medianKey = ks ! (length ks div 2),
          left = BTreeLeaf (take (length ks div 2) ks) (take (length ks div 2) vs),
          right = BTreeLeaf (drop (length ks div 2) ks) (drop (length ks div 2) vs)\<rparr>"
  by (simp add: Let_def array_get_def)

lemma split_node:
  assumes "ks \<noteq> []" "\<forall>c\<in>set cs. invar c"
  shows "split (BTreeNode ks cs cov) =
     Inr \<lparr>medianKey = ks ! (length ks div 2),
          left = BTreeNode (take (length ks div 2) ks) (take (Suc (length ks div 2)) cs)
                   (\<Union>c\<in>set (take (Suc (length ks div 2)) cs). posting_union c),
          right = BTreeNode (drop (Suc (length ks div 2)) ks) (drop (Suc (length ks div 2)) cs)
                   (\<Union>c\<in>set (drop (Suc (length ks div 2)) cs). posting_union c)\<rparr>"
proof -
  let ?m = "length ks div 2"
  have l: "\<forall>c\<in>set (take (Suc ?m) cs). invar c" and r: "\<forall>c\<in>set (drop (Suc ?m) cs). invar c"
    using assms(2) by (auto dest: in_set_takeD in_set_dropD)
  have "array_get ks ?m = Some (ks ! ?m)"
    using assms(1) by (simp add: array_get_def)
  then show ?thesis
    by (simp add: Let_def new_BTreeNode_invar [OF l] new_BTreeNode_invar [OF r])
qed

lemma separated_below:
  assumes "sorted_wrt (<) ks" "separated ks cs" "j \<le> i" "i < length ks" "k \<in> allkeys (cs ! j)"
  shows "k < ks ! i"
proof -
  have "k < ks ! j" using assms by (simp add: separated_def)
  moreover have "ks ! j \<le> ks ! i"
  proof (cases "j = i")
    case False
    with assms(3) have "j < i" by simp
    from sorted_wrt_nth_less [OF assms(1) this assms(4)] show ?thesis by simp
  qed simp
  ultimately show ?thesis by simp
qed

lemma separated_above:
  assumes "sorted_wrt (<) ks" "separated ks cs" "i < j" "j \<le> length ks" "k \<in> allkeys (cs ! j)"
  shows "ks ! i \<le> k"
proof -
  from assms(3) obtain j' where j': "j = Suc j'" by (cases j) auto
  have "ks ! j' \<le> k" using assms j' by (simp add: separated_def)
  moreover have "ks ! i \<le> ks ! j'"
  proof (cases "i = j'")
    case False
    with assms(3) j' have "i < j'" by simp
    moreover have "j' < length ks" using assms(4) j' by simp
    ultimately show ?thesis using sorted_wrt_nth_less [OF assms(1)] by fastforce
  qed simp
  ultimately show ?thesis by simp
qed

lemma set_take_drop: "set (take n xs) \<union> set (drop n xs) = set xs"
proof -
  have "set (take n xs @ drop n xs) = set xs" by simp
  then show ?thesis by (simp only: set_append)
qed

lemma in_set_take_nth: "x \<in> set (take n xs) \<Longrightarrow> \<exists>j<n. j < length xs \<and> xs ! j = x"
  by (auto simp: in_set_conv_nth)

lemma in_set_drop_nth: "x \<in> set (drop n xs) \<Longrightarrow> \<exists>j\<ge>n. j < length xs \<and> xs ! j = x"
proof -
  assume "x \<in> set (drop n xs)"
  then obtain i where "i < length xs - n" "drop n xs ! i = x"
    by (auto simp: in_set_conv_nth)
  then have "n + i < length xs" "xs ! (n + i) = x" by simp_all
  then show ?thesis by (intro exI [where x = "n + i"]) simp
qed

lemma leaf_halves:
  assumes "invar (BTreeLeaf ks vs)" "full (BTreeLeaf ks vs)"
  shows "halves (BTreeLeaf ks vs) (ks ! (length ks div 2))
           (BTreeLeaf (take (length ks div 2) ks) (take (length ks div 2) vs))
           (BTreeLeaf (drop (length ks div 2) ks) (drop (length ks div 2) vs))"
proof -
  let ?m = "length ks div 2"
  from assms have n: "length ks = 32" and v: "length vs = length ks" and s: "sorted_wrt (<) ks"
    by (simp_all add: MAX_LEAF_SIZE_def)
  have m: "?m = 16" using n by simp
  have z: "set (zip (take ?m ks) (take ?m vs)) \<union> set (zip (drop ?m ks) (drop ?m vs)) = set (zip ks vs)"
    by (simp only: take_zip [symmetric] drop_zip [symmetric] set_take_drop)
  have lo: "\<forall>k\<in>set (take ?m ks). k < ks ! ?m"
  proof
    fix k assume "k \<in> set (take ?m ks)"
    then obtain j where "j < ?m" "ks ! j = k" by (auto dest: in_set_take_nth)
    then show "k < ks ! ?m"
      using sorted_wrt_nth_less [OF s, of j ?m] n by simp
  qed
  have hi: "\<forall>k\<in>set (drop ?m ks). ks ! ?m \<le> k"
  proof
    fix k assume "k \<in> set (drop ?m ks)"
    then obtain j where j: "?m \<le> j" "j < length ks" "ks ! j = k" by (auto dest: in_set_drop_nth)
    show "ks ! ?m \<le> k"
    proof (cases "j = ?m")
      case False
      with j have "?m < j" by simp
      from sorted_wrt_nth_less [OF s this j(2)] j(3) show ?thesis by simp
    qed (use j in simp)
  qed
  have k0: "\<exists>k\<in>set ks. k < ks ! ?m"
  proof
    show "ks ! 0 \<in> set ks" using n by (intro nth_mem) simp
    show "ks ! 0 < ks ! ?m" using sorted_wrt_nth_less [OF s, of 0 ?m] n by simp
  qed
  have mem: "ks ! ?m \<in> set ks" using n by (intro nth_mem) simp
  show ?thesis
    unfolding halves_def
  proof (intro conjI)
    show "invar (BTreeLeaf (take ?m ks) (take ?m vs))"
      using n v s by (simp add: MAX_LEAF_SIZE_def sorted_wrt_take)
    show "invar (BTreeLeaf (drop ?m ks) (drop ?m vs))"
      using n v s by (simp add: MAX_LEAF_SIZE_def sorted_wrt_drop)
    show "\<not> full (BTreeLeaf (take ?m ks) (take ?m vs))"
      using n by (simp add: MAX_LEAF_SIZE_def)
    show "\<not> full (BTreeLeaf (drop ?m ks) (drop ?m vs))"
      using n by (simp add: MAX_LEAF_SIZE_def)
    show "leafkeys (BTreeLeaf (take ?m ks) (take ?m vs)) \<union> leafkeys (BTreeLeaf (drop ?m ks) (drop ?m vs)) =
          leafkeys (BTreeLeaf ks vs)"
      by (simp add: set_take_drop)
    show "pairs (BTreeLeaf (take ?m ks) (take ?m vs)) \<union> pairs (BTreeLeaf (drop ?m ks) (drop ?m vs)) =
          pairs (BTreeLeaf ks vs)"
      unfolding pairs.simps z [symmetric] by blast
    show "posting_union (BTreeLeaf (take ?m ks) (take ?m vs)) \<union> posting_union (BTreeLeaf (drop ?m ks) (drop ?m vs)) =
          posting_union (BTreeLeaf ks vs)"
      unfolding posting_union.simps z [symmetric] by blast
    show "allkeys (BTreeLeaf (take ?m ks) (take ?m vs)) \<union> allkeys (BTreeLeaf (drop ?m ks) (drop ?m vs)) \<union> {ks ! ?m} =
          allkeys (BTreeLeaf ks vs)"
      using mem by (auto simp: set_take_drop)
    show "\<forall>k\<in>allkeys (BTreeLeaf (take ?m ks) (take ?m vs)). k < ks ! ?m"
      using lo by simp
    show "\<forall>k\<in>allkeys (BTreeLeaf (drop ?m ks) (drop ?m vs)). ks ! ?m \<le> k"
      using hi by simp
    show "\<exists>k\<in>allkeys (BTreeLeaf ks vs). k < ks ! ?m"
      using k0 by simp
  qed
qed

lemma node_halves:
  assumes "invar (BTreeNode ks cs cov)" "full (BTreeNode ks cs cov)"
  shows "halves (BTreeNode ks cs cov) (ks ! (length ks div 2))
           (BTreeNode (take (length ks div 2) ks) (take (Suc (length ks div 2)) cs)
              (\<Union>c\<in>set (take (Suc (length ks div 2)) cs). posting_union c))
           (BTreeNode (drop (Suc (length ks div 2)) ks) (drop (Suc (length ks div 2)) cs)
              (\<Union>c\<in>set (drop (Suc (length ks div 2)) cs). posting_union c))"
proof -
  let ?m = "length ks div 2"
  let ?l = "BTreeNode (take ?m ks) (take (Suc ?m) cs) (\<Union>c\<in>set (take (Suc ?m) cs). posting_union c)"
  let ?r = "BTreeNode (drop (Suc ?m) ks) (drop (Suc ?m) cs) (\<Union>c\<in>set (drop (Suc ?m) cs). posting_union c)"
  from assms have n: "length ks = 32" and c: "length cs = 33" and s: "sorted_wrt (<) ks"
    and sep: "separated ks cs" and ch: "\<forall>c\<in>set cs. invar c"
    by (simp_all add: MAX_NODE_SIZE_def)
  have m: "?m = 16" using n by simp
  have cs: "set (take (Suc ?m) cs) \<union> set (drop (Suc ?m) cs) = set cs"
    by (rule set_take_drop)
  have ks: "set (take ?m ks) \<union> {ks ! ?m} \<union> set (drop (Suc ?m) ks) = set ks"
    using set_nth_decomp [of ?m ks] n by simp
  have sepl: "separated (take ?m ks) (take (Suc ?m) cs)"
    using sep n c by (simp add: separated_def)
  have sepr: "separated (drop (Suc ?m) ks) (drop (Suc ?m) cs)"
    using sep n c by (simp add: separated_def)
  have lo: "\<forall>k\<in>allkeys ?l. k < ks ! ?m"
  proof
    fix k assume "k \<in> allkeys ?l"
    then consider (key) "k \<in> set (take ?m ks)"
      | (child) c' where "c' \<in> set (take (Suc ?m) cs)" "k \<in> allkeys c'"
      by auto
    then show "k < ks ! ?m"
    proof cases
      case key
      then obtain j where "j < ?m" "ks ! j = k" by (auto dest: in_set_take_nth)
      then show ?thesis using sorted_wrt_nth_less [OF s, of j ?m] n by simp
    next
      case child
      then obtain j where "j < Suc ?m" "cs ! j = c'" by (auto dest: in_set_take_nth)
      with child(2) show ?thesis
        using separated_below [OF s sep, of j ?m k] n by simp
    qed
  qed
  have hi: "\<forall>k\<in>allkeys ?r. ks ! ?m \<le> k"
  proof
    fix k assume "k \<in> allkeys ?r"
    then consider (key) "k \<in> set (drop (Suc ?m) ks)"
      | (child) c' where "c' \<in> set (drop (Suc ?m) cs)" "k \<in> allkeys c'"
      by auto
    then show "ks ! ?m \<le> k"
    proof cases
      case key
      then obtain j where "Suc ?m \<le> j" "j < length ks" "ks ! j = k"
        by (auto dest: in_set_drop_nth)
      then show ?thesis using sorted_wrt_nth_less [OF s, of ?m j] by simp
    next
      case child
      then obtain j where "Suc ?m \<le> j" "j < length cs" "cs ! j = c'"
        by (auto dest: in_set_drop_nth)
      with child(2) show ?thesis
        using separated_above [OF s sep, of ?m j k] n c by simp
    qed
  qed
  have k0: "\<exists>k\<in>allkeys (BTreeNode ks cs cov). k < ks ! ?m"
  proof
    show "ks ! 0 \<in> allkeys (BTreeNode ks cs cov)" using n by simp
    show "ks ! 0 < ks ! ?m" using sorted_wrt_nth_less [OF s, of 0 ?m] n by simp
  qed
  show ?thesis
    unfolding halves_def
  proof (intro conjI)
    show "invar ?l"
      using n c s ch sepl by (auto simp: MAX_NODE_SIZE_def sorted_wrt_take dest: in_set_takeD)
    show "invar ?r"
      using n c s ch sepr by (auto simp: MAX_NODE_SIZE_def sorted_wrt_drop dest: in_set_dropD)
    show "\<not> full ?l" using n by (simp add: MAX_NODE_SIZE_def)
    show "\<not> full ?r" using n by (simp add: MAX_NODE_SIZE_def)
    show "leafkeys ?l \<union> leafkeys ?r = leafkeys (BTreeNode ks cs cov)"
      unfolding leafkeys.simps cs [symmetric] by blast
    show "pairs ?l \<union> pairs ?r = pairs (BTreeNode ks cs cov)"
      unfolding pairs.simps cs [symmetric] by blast
    show "posting_union ?l \<union> posting_union ?r = posting_union (BTreeNode ks cs cov)"
      unfolding posting_union.simps cs [symmetric] by blast
    show "allkeys ?l \<union> allkeys ?r \<union> {ks ! ?m} = allkeys (BTreeNode ks cs cov)"
      unfolding allkeys.simps cs [symmetric] ks [symmetric] by blast
  qed (rule lo hi k0)+
qed

lemma split_halves:
  assumes "invar c" "full c"
  shows "\<exists>s. split c = Inr s \<and> halves c (medianKey s) (left s) (right s)"
proof (cases c)
  case (BTreeLeaf ks vs)
  with assms(2) have "ks \<noteq> []" by (auto simp: MAX_LEAF_SIZE_def)
  from split_leaf [OF this] leaf_halves [of ks vs] assms BTreeLeaf show ?thesis
    by simp
next
  case (BTreeNode ks cs cov)
  with assms have "ks \<noteq> []" "\<forall>c\<in>set cs. invar c" by (auto simp: MAX_NODE_SIZE_def)
  from split_node [OF this] node_halves [of ks cs cov] assms BTreeNode show ?thesis
    by simp
qed

subsection \<open>An inner node whose child is split or replaced\<close>

lemma split_nth:
  assumes "i < length cs" "j \<le> length cs"
  shows "(take i cs @ l # r # drop (Suc i) cs) ! j =
         (if j < i then cs ! j else if j = i then l else if j = Suc i then r else cs ! (j - 1))"
proof -
  consider "j < i" | "j = i" | "j = Suc i" | "Suc i < j" by linarith
  then show ?thesis
  proof cases
    case 4
    then obtain d where d: "j = Suc (Suc (i + d))"
      using less_iff_Suc_add [of "Suc i" j] by auto
    have "(take i cs @ l # r # drop (Suc i) cs) ! j = (l # r # drop (Suc i) cs) ! (j - i)"
      using assms 4 by (simp add: nth_append)
    also have "\<dots> = drop (Suc i) cs ! d"
      using d by simp
    also have "\<dots> = cs ! (j - 1)"
      using d assms by simp
    finally show ?thesis using 4 by simp
  qed (use assms in \<open>simp_all add: nth_append\<close>)
qed

lemma split_child_set:
  "set (take i cs @ l # r # drop (Suc i) cs) \<subseteq> insert l (insert r (set cs))"
  by (auto dest: in_set_takeD in_set_dropD)

lemma invar_split_child:
  assumes inv: "invar (BTreeNode ks cs cov)" and i: "i \<le> length ks"
    and h: "halves (cs ! i) m l r" and room: "length ks < MAX_NODE_SIZE"
  shows "invar (BTreeNode (array_splice i m ks) (take i cs @ l # r # drop (Suc i) cs) cov)"
proof -
  let ?ks = "array_splice i m ks" and ?cs = "take i cs @ l # r # drop (Suc i) cs"
  from inv have len: "length cs = Suc (length ks)" and s: "sorted_wrt (<) ks"
    and sep: "separated ks cs" and cov: "cov = (\<Union>c\<in>set cs. posting_union c)"
    and ch: "\<forall>c\<in>set cs. invar c"
    by simp_all
  from h have hl: "invar l" and hr: "invar r"
    and pu: "posting_union l \<union> posting_union r = posting_union (cs ! i)"
    and ak: "allkeys l \<union> allkeys r \<union> {m} = allkeys (cs ! i)"
    and lo: "\<forall>k\<in>allkeys l. k < m" and hi: "\<forall>k\<in>allkeys r. m \<le> k"
    and k0: "\<exists>k\<in>allkeys (cs ! i). k < m"
    by (simp_all add: halves_def)
  from ak have al: "allkeys l \<subseteq> allkeys (cs ! i)" and ar: "allkeys r \<subseteq> allkeys (cs ! i)"
    and am: "m \<in> allkeys (cs ! i)"
    by auto
  have ic: "i < length cs" using i len by simp
  have sorted: "sorted_wrt (<) ?ks"
  proof (rule sorted_splice [OF s])
    from k0 obtain k where k: "k \<in> allkeys (cs ! i)" "k < m" by blast
    show "\<forall>j<i. j < length ks \<longrightarrow> ks ! j < m"
    proof (intro allI impI)
      fix j assume "j < i" "j < length ks"
      from separated_above [OF s sep this(1) i k(1)] k(2) show "ks ! j < m" by simp
    qed
    show "\<forall>j. i \<le> j \<and> j < length ks \<longrightarrow> m < ks ! j"
      using separated_below [OF s sep _ _ am] by blast
  qed
  have separated: "separated ?ks ?cs"
    unfolding separated_def
  proof (intro allI impI conjI ballI)
    fix j k assume j: "j < length ?ks" and k: "k \<in> allkeys (?cs ! j)"
    have jn: "j \<le> length ks" "j \<le> length cs" using j len by simp_all
    consider "j < i" | "j = i" | "i < j" by linarith
    then show "k < ?ks ! j"
    proof cases
      case 1
      then have "?cs ! j = cs ! j" "?ks ! j = ks ! j"
        using ic i jn by (simp_all add: split_nth splice_nth)
      with k sep 1 i show ?thesis by (simp add: separated_def)
    next
      case 2
      then have "?cs ! j = l" "?ks ! j = m"
        using ic i jn by (simp_all add: split_nth splice_nth)
      with k lo show ?thesis by simp
    next
      case 3
      then have ks: "?ks ! j = ks ! (j - 1)"
        using i jn by (simp add: splice_nth)
      have "k \<in> allkeys (cs ! (j - 1))"
      proof (cases "j = Suc i")
        case True
        then have "?cs ! j = r" using ic jn by (simp add: split_nth)
        with k ar True show ?thesis by auto
      next
        case False
        with 3 have "?cs ! j = cs ! (j - 1)" using ic jn by (simp add: split_nth)
        with k show ?thesis by simp
      qed
      moreover have "j - 1 < length ks" using 3 j by simp
      ultimately show ?thesis using sep ks by (simp add: separated_def)
    qed
  next
    fix j k assume j: "j < length ?ks" and k: "k \<in> allkeys (?cs ! Suc j)"
    have jn: "j \<le> length ks" "Suc j \<le> length cs" using j len by simp_all
    consider "j < i" | "j = i" | "i < j" by linarith
    then show "?ks ! j \<le> k"
    proof cases
      case 1
      then have ks: "?ks ! j = ks ! j" using i jn by (simp add: splice_nth)
      have "k \<in> allkeys (cs ! Suc j)"
      proof (cases "Suc j = i")
        case True
        then have "?cs ! Suc j = l" using ic jn by (simp add: split_nth)
        with k al True show ?thesis by auto
      next
        case False
        with 1 have "?cs ! Suc j = cs ! Suc j" using ic jn by (simp add: split_nth)
        with k show ?thesis by simp
      qed
      moreover have "j < length ks" using 1 i by simp
      ultimately show ?thesis using sep ks by (simp add: separated_def)
    next
      case 2
      then have "?cs ! Suc j = r" "?ks ! j = m"
        using ic i jn by (simp_all add: split_nth splice_nth)
      with k hi show ?thesis by simp
    next
      case 3
      then have "?cs ! Suc j = cs ! j" "?ks ! j = ks ! (j - 1)"
        using ic i jn by (simp_all add: split_nth splice_nth)
      moreover have "j - 1 < length ks" "Suc (j - 1) = j" using 3 j by simp_all
      ultimately show ?thesis using sep k by (auto simp: separated_def)
    qed
  qed
  have "(\<Union>c\<in>set ?cs. posting_union c) = (\<Union>c\<in>set cs. posting_union c)"
    by (rule UN_split [OF ic pu])
  moreover have "\<forall>c\<in>set ?cs. invar c"
    using split_child_set [of i cs l r] hl hr ch by blast
  moreover have "length ?cs = Suc (length ?ks)"
    using ic len by simp
  moreover have "length ?ks \<le> MAX_NODE_SIZE"
    using room by simp
  ultimately show ?thesis
    using sorted separated cov by simp
qed

lemma abs_split_child:
  assumes "i < length cs" and "halves (cs ! i) m l r"
  shows "leafkeys (BTreeNode ks' (take i cs @ l # r # drop (Suc i) cs) cov) = leafkeys (BTreeNode ks cs cov)"
    and "pairs (BTreeNode ks' (take i cs @ l # r # drop (Suc i) cs) cov) = pairs (BTreeNode ks cs cov)"
    and "posting_union (BTreeNode ks' (take i cs @ l # r # drop (Suc i) cs) cov) = posting_union (BTreeNode ks cs cov)"
    and "allkeys (BTreeNode (array_splice i m ks) (take i cs @ l # r # drop (Suc i) cs) cov) = allkeys (BTreeNode ks cs cov)"
proof -
  from assms(2) have lk: "leafkeys l \<union> leafkeys r = leafkeys (cs ! i)"
    and pa: "pairs l \<union> pairs r = pairs (cs ! i)"
    and pu: "posting_union l \<union> posting_union r = posting_union (cs ! i)"
    and ak: "allkeys l \<union> allkeys r \<union> {m} = allkeys (cs ! i)"
    by (simp_all add: halves_def)
  show "leafkeys (BTreeNode ks' (take i cs @ l # r # drop (Suc i) cs) cov) = leafkeys (BTreeNode ks cs cov)"
    unfolding leafkeys.simps by (rule UN_split [OF assms(1) lk])
  show "pairs (BTreeNode ks' (take i cs @ l # r # drop (Suc i) cs) cov) = pairs (BTreeNode ks cs cov)"
    unfolding pairs.simps by (rule UN_split [OF assms(1) pa])
  show "posting_union (BTreeNode ks' (take i cs @ l # r # drop (Suc i) cs) cov) = posting_union (BTreeNode ks cs cov)"
    unfolding posting_union.simps by (rule UN_split [OF assms(1) pu])
  have "(\<Union>c\<in>set (take i cs @ l # r # drop (Suc i) cs). allkeys c) \<union> {m} =
        (\<Union>c\<in>set (take i cs). allkeys c) \<union> allkeys (cs ! i) \<union> (\<Union>c\<in>set (drop (Suc i) cs). allkeys c)"
    using ak by auto
  also have "\<dots> = (\<Union>c\<in>set (take i cs) \<union> {cs ! i} \<union> set (drop (Suc i) cs). allkeys c)"
    by blast
  also have "\<dots> = (\<Union>c\<in>set cs. allkeys c)"
    by (simp only: set_nth_decomp [OF assms(1), symmetric])
  finally show "allkeys (BTreeNode (array_splice i m ks) (take i cs @ l # r # drop (Suc i) cs) cov) = allkeys (BTreeNode ks cs cov)"
    unfolding allkeys.simps splice_set by blast
qed

lemma invar_update_child:
  assumes inv: "invar (BTreeNode ks cs cov)"
    and c': "invar c'" "allkeys c' = insert key (allkeys (cs ! findIndex key ks))"
      "posting_union c' = insert val (posting_union (cs ! findIndex key ks))"
  shows "invar (BTreeNode ks (cs[findIndex key ks := c']) (insert val cov))"
proof -
  let ?i = "findIndex key ks"
  from inv have len: "length cs = Suc (length ks)" and s: "sorted_wrt (<) ks"
    and sep: "separated ks cs" and cov: "cov = (\<Union>c\<in>set cs. posting_union c)"
    and ch: "\<forall>c\<in>set cs. invar c" and sz: "length ks \<le> MAX_NODE_SIZE"
    by simp_all
  have ic: "?i < length cs" using findIndex_le [of key ks] len by simp
  have "separated ks (cs[?i := c'])"
    unfolding separated_def
  proof (intro allI impI conjI ballI)
    fix j k assume j: "j < length ks" and k: "k \<in> allkeys (cs[?i := c'] ! j)"
    show "k < ks ! j"
    proof (cases "j = ?i")
      case True
      with k ic c'(2) have "k = key \<or> k \<in> allkeys (cs ! j)" by auto
      moreover have "key < ks ! j" using True j findIndex_at [of key ks] by simp
      ultimately show ?thesis using sep j by (auto simp: separated_def)
    next
      case False
      with k sep j show ?thesis by (simp add: separated_def)
    qed
  next
    fix j k assume j: "j < length ks" and k: "k \<in> allkeys (cs[?i := c'] ! Suc j)"
    show "ks ! j \<le> k"
    proof (cases "Suc j = ?i")
      case True
      with k ic c'(2) have "k = key \<or> k \<in> allkeys (cs ! Suc j)" by auto
      moreover have "ks ! j \<le> key" using True findIndex_below [of j key ks] by simp
      ultimately show ?thesis using sep j by (auto simp: separated_def)
    next
      case False
      with k sep j show ?thesis by (simp add: separated_def)
    qed
  qed
  moreover have "(\<Union>c\<in>set (cs[?i := c']). posting_union c) = (\<Union>c\<in>set cs. posting_union c) \<union> {val}"
    by (rule UN_update [OF ic]) (simp add: c'(3))
  moreover have "\<forall>c\<in>set (cs[?i := c']). invar c"
    using ch c'(1) by (auto dest: set_update_subset_insert [THEN subsetD])
  ultimately show ?thesis
    using len s cov sz by simp
qed

lemma abs_update_child:
  assumes "i < length cs"
    and "leafkeys c' = insert key (leafkeys (cs ! i))"
    and "pairs c' = insert (key, val) (pairs (cs ! i))"
    and "posting_union c' = insert val (posting_union (cs ! i))"
    and "allkeys c' = insert key (allkeys (cs ! i))"
  shows "leafkeys (BTreeNode ks (cs[i := c']) cov') = insert key (leafkeys (BTreeNode ks cs cov))"
    and "pairs (BTreeNode ks (cs[i := c']) cov') = insert (key, val) (pairs (BTreeNode ks cs cov))"
    and "posting_union (BTreeNode ks (cs[i := c']) cov') = insert val (posting_union (BTreeNode ks cs cov))"
    and "allkeys (BTreeNode ks (cs[i := c']) cov') = insert key (allkeys (BTreeNode ks cs cov))"
proof -
  have "(\<Union>c\<in>set (cs[i := c']). leafkeys c) = (\<Union>c\<in>set cs. leafkeys c) \<union> {key}"
    by (rule UN_update [OF assms(1)]) (simp add: assms(2))
  then show "leafkeys (BTreeNode ks (cs[i := c']) cov') = insert key (leafkeys (BTreeNode ks cs cov))"
    by simp
  have "(\<Union>c\<in>set (cs[i := c']). pairs c) = (\<Union>c\<in>set cs. pairs c) \<union> {(key, val)}"
    by (rule UN_update [OF assms(1)]) (simp add: assms(3))
  then show "pairs (BTreeNode ks (cs[i := c']) cov') = insert (key, val) (pairs (BTreeNode ks cs cov))"
    by simp
  have "(\<Union>c\<in>set (cs[i := c']). posting_union c) = (\<Union>c\<in>set cs. posting_union c) \<union> {val}"
    by (rule UN_update [OF assms(1)]) (simp add: assms(4))
  then show "posting_union (BTreeNode ks (cs[i := c']) cov') = insert val (posting_union (BTreeNode ks cs cov))"
    by simp
  have "(\<Union>c\<in>set (cs[i := c']). allkeys c) = (\<Union>c\<in>set cs. allkeys c) \<union> {key}"
    by (rule UN_update [OF assms(1)]) (simp add: assms(5))
  then show "allkeys (BTreeNode ks (cs[i := c']) cov') = insert key (allkeys (BTreeNode ks cs cov))"
    by simp
qed

subsection \<open>Insertion keeps the invariant\<close>

lemma room_not_full: "\<not> full e \<Longrightarrow> room key e"
  by (cases e) simp_all

lemma insert_node_split:
  assumes "array_get cs (findChildIndex key ks) = Some c" "full c" "split c = Inr s"
  shows "insert_BTreeElement key val (BTreeNode ks cs cov) =
         insert_BTreeElement key val
           (BTreeNode (array_splice (findChildIndex key ks) (medianKey s) ks)
              ((array_splice (findChildIndex key ks + 1) (right s) cs)[findChildIndex key ks := left s]) cov)"
  by (subst insert_BTreeElement.simps(2)) (simp only: Let_def assms option.case sum.case if_True)

lemma insert_node_descend:
  assumes "array_get cs (findChildIndex key ks) = Some c" "\<not> full c"
    "insert_BTreeElement key val c = Inr c'"
  shows "insert_BTreeElement key val (BTreeNode ks cs cov) =
         Inr (BTreeNode ks (cs[findChildIndex key ks := c']) (insert val cov))"
  by (subst insert_BTreeElement.simps(2)) (simp only: Let_def assms option.case sum.case if_False)

lemma insert_inserted:
  "invar e \<Longrightarrow> room key e \<Longrightarrow>
   \<exists>e'. insert_BTreeElement key val e = Inr e' \<and> inserted key val e e'"
proof (induction key val e rule: insert_BTreeElement.induct)
  case (1 key val ks vs)
  then have "sorted_wrt (<) ks" "length vs = length ks" "length ks < 32"
    by (simp_all add: MAX_LEAF_SIZE_def)
  from leaf_insert [OF this(1,2), of key val] obtain ks' vs' where
    r: "BTreeLeaf_insert key val ks vs = BTreeLeaf ks' vs'"
    and l: "length vs' = length ks'" "sorted_wrt (<) ks'" "length ks' \<le> Suc (length ks)"
    and k: "set ks' = insert key (set ks)"
    and p: "pairs (BTreeLeaf ks' vs') = insert (key, val) (pairs (BTreeLeaf ks vs))"
    and u: "posting_union (BTreeLeaf ks' vs') = insert val (posting_union (BTreeLeaf ks vs))"
    by blast
  have "invar (BTreeLeaf ks' vs')"
    using l \<open>length ks < 32\<close> by (simp add: MAX_LEAF_SIZE_def)
  then have "inserted key val (BTreeLeaf ks vs) (BTreeLeaf ks' vs')"
    unfolding inserted_def using k p u by simp
  then show ?case
    by (simp add: r)
next
  case (2 key val ks cs cov)
  let ?i = "findChildIndex key ks"
  let ?N = "BTreeNode ks cs cov"
  note inv = \<open>invar ?N\<close>
  from inv have len: "length cs = Suc (length ks)" and ch: "\<forall>c\<in>set cs. invar c"
    by simp_all
  have i: "?i \<le> length ks" and fi: "?i = findIndex key ks"
    by (simp_all add: findChildIndex_eq findIndex_le)
  with len have ic: "?i < length cs" by simp
  then have get: "array_get cs ?i = Some (cs ! ?i)"
    by (simp add: array_get_def)
  have invc: "invar (cs ! ?i)" using ch ic by simp
  show ?case
  proof (cases "full (cs ! ?i)")
    case True
    from split_halves [OF invc True] obtain s where
      s: "split (cs ! ?i) = Inr s" and h: "halves (cs ! ?i) (medianKey s) (left s) (right s)"
      by blast
    let ?ks = "array_splice ?i (medianKey s) ks"
    let ?cs = "(array_splice (?i + 1) (right s) cs)[?i := left s]"
    let ?N' = "BTreeNode ?ks ?cs cov"
    have cs: "?cs = take ?i cs @ left s # right s # drop (Suc ?i) cs"
      using splice_update [OF ic] by simp
    from True \<open>room key ?N\<close> have sz: "length ks < MAX_NODE_SIZE"
      by simp
    have inv': "invar ?N'"
      unfolding cs by (rule invar_split_child [OF inv i h sz])
    have "findChildIndex key ?ks = (if medianKey s \<le> key then Suc ?i else ?i)"
      using inv by (simp add: findChildIndex_eq findIndex_splice)
    moreover have "?cs ! ?i = left s" "?cs ! Suc ?i = right s"
      unfolding cs using ic by (simp_all add: split_nth)
    moreover have "\<not> full (left s)" "\<not> full (right s)"
      using h by (simp_all add: halves_def)
    ultimately have room': "room key ?N'"
      by simp
    from "2.IH"(1) [OF refl get True s inv' room'] obtain e' where
      e': "insert_BTreeElement key val ?N' = Inr e'" "inserted key val ?N' e'"
      by blast
    have "insert_BTreeElement key val ?N = Inr e'"
      using insert_node_split [OF get True s] e'(1) by simp
    moreover have "inserted key val ?N e'"
      using e'(2) abs_split_child [OF ic h] unfolding cs inserted_def by simp
    ultimately show ?thesis by blast
  next
    case False
    from "2.IH"(2) [OF refl get False invc room_not_full [OF False]] obtain c' where
      c': "insert_BTreeElement key val (cs ! ?i) = Inr c'" "inserted key val (cs ! ?i) c'"
      by blast
    let ?N' = "BTreeNode ks (cs[?i := c']) (insert val cov)"
    have r: "insert_BTreeElement key val ?N = Inr ?N'"
      by (rule insert_node_descend [OF get False c'(1)])
    from c'(2) have c'': "invar c'" "allkeys c' = insert key (allkeys (cs ! ?i))"
      "leafkeys c' = insert key (leafkeys (cs ! ?i))"
      "pairs c' = insert (key, val) (pairs (cs ! ?i))"
      "posting_union c' = insert val (posting_union (cs ! ?i))"
      by (simp_all add: inserted_def)
    have "invar ?N'"
      using invar_update_child [OF inv, of c' key val] c'' fi by simp
    then have "inserted key val ?N ?N'"
      unfolding inserted_def
      using abs_update_child [OF ic c''(3,4,5,2)] by blast
    with r show ?thesis by blast
  qed
qed

subsection \<open>Insertion into the tree\<close>

lemma insert_BTree_room:
  assumes "invar (root t)" "\<not> full (root t)"
  shows "\<exists>t'. insert_BTree key val t = Inr t' \<and> inserted key val (root t) (root t')"
proof -
  from insert_inserted [OF assms(1) room_not_full [OF assms(2)], of key val] obtain e' where
    e': "insert_BTreeElement key val (root t) = Inr e'" "inserted key val (root t) e'"
    by blast
  have "insert_BTree key val t = Inr (t\<lparr>root := e'\<rparr>)"
    by (subst insert_BTree.simps) (simp add: assms(2) e'(1))
  with e'(2) show ?thesis by simp
qed

lemma insert_BTree_inserted:
  assumes "invar (root t)"
  shows "\<exists>t'. insert_BTree key val t = Inr t' \<and> inserted key val (root t) (root t')"
proof (cases "full (root t)")
  case False
  then show ?thesis by (rule insert_BTree_room [OF assms])
next
  case True
  from split_halves [OF assms True] obtain s where
    s: "split (root t) = Inr s" and h: "halves (root t) (medianKey s) (left s) (right s)"
    by blast
  let ?r = "BTreeNode [medianKey s] [left s, right s] (posting_union (left s) \<union> posting_union (right s))"
  from h have hl: "invar (left s)" "invar (right s)"
    and ab: "leafkeys (left s) \<union> leafkeys (right s) = leafkeys (root t)"
      "pairs (left s) \<union> pairs (right s) = pairs (root t)"
      "posting_union (left s) \<union> posting_union (right s) = posting_union (root t)"
      "allkeys (left s) \<union> allkeys (right s) \<union> {medianKey s} = allkeys (root t)"
    and lo: "\<forall>k\<in>allkeys (left s). k < medianKey s"
    and hi: "\<forall>k\<in>allkeys (right s). medianKey s \<le> k"
    by (simp_all add: halves_def)
  have n: "new_BTreeNode [medianKey s] [left s, right s] = Inr ?r"
    using new_BTreeNode_invar [of "[left s, right s]" "[medianKey s]"] hl by simp
  have inv: "invar ?r"
    using hl lo hi by (simp add: separated_def MAX_NODE_SIZE_def)
  have nf: "\<not> full ?r"
    by (simp add: MAX_NODE_SIZE_def)
  from insert_BTree_room [of "t\<lparr>root := ?r\<rparr>" key val] inv nf obtain t' where
    t': "insert_BTree key val (t\<lparr>root := ?r\<rparr>) = Inr t'" "inserted key val ?r (root t')"
    by auto
  have "insert_BTree key val t = Inr t'"
    by (subst insert_BTree.simps) (simp add: True s n t'(1))
  moreover have "inserted key val (root t) (root t')"
    using t'(2) ab unfolding inserted_def by auto
  ultimately show ?thesis by blast
qed

lemma inserts_invar:
  "invar (root t) \<Longrightarrow>
   \<exists>t'. inserts ops t = Inr t' \<and> invar (root t') \<and>
        leafkeys (root t') = leafkeys (root t) \<union> fst ` set ops \<and>
        pairs (root t') = pairs (root t) \<union> set ops"
proof (induction ops arbitrary: t)
  case Nil
  then show ?case by simp
next
  case (Cons op ops)
  obtain key val where op: "op = (key, val)" by (cases op)
  from insert_BTree_inserted [OF Cons.prems, of key val] obtain t1 where
    t1: "insert_BTree key val t = Inr t1" "inserted key val (root t) (root t1)"
    by blast
  then have i1: "invar (root t1)" "leafkeys (root t1) = insert key (leafkeys (root t))"
    "pairs (root t1) = insert (key, val) (pairs (root t))"
    by (simp_all add: inserted_def)
  from Cons.IH [OF i1(1)] obtain t' where
    t': "inserts ops t1 = Inr t'" "invar (root t')"
      "leafkeys (root t') = leafkeys (root t1) \<union> fst ` set ops"
      "pairs (root t') = pairs (root t1) \<union> set ops"
    by blast
  have "inserts (op # ops) t = Inr t'"
    by (simp add: op t1(1) t'(1))
  moreover have "leafkeys (root t') = leafkeys (root t) \<union> fst ` set (op # ops)"
    using t'(3) i1(2) op by auto
  moreover have "pairs (root t') = pairs (root t) \<union> set (op # ops)"
    using t'(4) i1(3) op by auto
  ultimately show ?case using t'(2) by blast
qed

text \<open>Every tree built by insertions from the empty tree: the insertions all return, the
  invariant holds, and the tree holds exactly the pairs inserted.\<close>

lemma built:
  "\<exists>t. inserts ops new_BTree = Inr t \<and> invar (root t) \<and>
       leafkeys (root t) = fst ` set ops \<and> pairs (root t) = set ops"
proof -
  have "invar (root (new_BTree :: 'a BTree))"
    by (simp add: new_BTree_def)
  from inserts_invar [OF this, of ops] show ?thesis
    by (simp add: new_BTree_def)
qed

subsection \<open>Lookup\<close>

lemma leafkeys_allkeys: "leafkeys e \<subseteq> allkeys e"
  by (induction e) auto

lemma pairs_leafkeys: "(k, d) \<in> pairs e \<Longrightarrow> k \<in> leafkeys e"
  by (induction e) (auto dest: set_zip_leftD)

lemma route:
  assumes "invar (BTreeNode ks cs cov)" "j < length cs" "key \<in> allkeys (cs ! j)"
  shows "j = findIndex key ks"
proof -
  let ?i = "findIndex key ks"
  from assms(1) have len: "length cs = Suc (length ks)" and s: "sorted_wrt (<) ks"
    and sep: "separated ks cs"
    by simp_all
  have "\<not> j < ?i"
  proof
    assume a: "j < ?i"
    then have "ks ! j \<le> key" by (rule findIndex_below)
    moreover have "j < length ks" using a findIndex_le [of key ks] by simp
    then have "key < ks ! j" using sep assms(3) by (simp add: separated_def)
    ultimately show False by simp
  qed
  moreover have "\<not> ?i < j"
  proof
    assume a: "?i < j"
    then have "?i < length ks" using assms(2) len by simp
    then have "key < ks ! ?i" by (rule findIndex_at)
    moreover have "ks ! ?i \<le> key"
      using separated_above [OF s sep a _ assms(3)] assms(2) len by simp
    ultimately show False by simp
  qed
  ultimately show ?thesis by simp
qed

lemma route_leafkeys:
  assumes "invar (BTreeNode ks cs cov)"
  shows "key \<in> leafkeys (BTreeNode ks cs cov) \<longleftrightarrow> key \<in> leafkeys (cs ! findIndex key ks)"
proof
  assume "key \<in> leafkeys (BTreeNode ks cs cov)"
  then obtain j where j: "j < length cs" "key \<in> leafkeys (cs ! j)"
    by (auto simp: in_set_conv_nth)
  then have "key \<in> allkeys (cs ! j)" using leafkeys_allkeys [of "cs ! j"] by auto
  from route [OF assms j(1) this] j(2) show "key \<in> leafkeys (cs ! findIndex key ks)"
    by simp
next
  assume a: "key \<in> leafkeys (cs ! findIndex key ks)"
  have "findIndex key ks < length cs"
    using assms findIndex_le [of key ks] by simp
  with a show "key \<in> leafkeys (BTreeNode ks cs cov)"
    by auto
qed

lemma route_pairs:
  assumes "invar (BTreeNode ks cs cov)"
  shows "(key, d) \<in> pairs (BTreeNode ks cs cov) \<longleftrightarrow> (key, d) \<in> pairs (cs ! findIndex key ks)"
proof
  assume "(key, d) \<in> pairs (BTreeNode ks cs cov)"
  then obtain j where j: "j < length cs" "(key, d) \<in> pairs (cs ! j)"
    by (auto simp: in_set_conv_nth)
  then have "key \<in> allkeys (cs ! j)"
    using leafkeys_allkeys [of "cs ! j"] pairs_leafkeys [of key d "cs ! j"] by auto
  from route [OF assms j(1) this] j(2) show "(key, d) \<in> pairs (cs ! findIndex key ks)"
    by simp
next
  assume a: "(key, d) \<in> pairs (cs ! findIndex key ks)"
  have "findIndex key ks < length cs"
    using assms findIndex_le [of key ks] by simp
  with a show "(key, d) \<in> pairs (BTreeNode ks cs cov)"
    by auto
qed

lemma leaf_posting:
  fixes ks :: "'a::linorder list"
  assumes "sorted_wrt (<) ks" "length vs = length ks" "j < length ks"
  shows "{d. (ks ! j, d) \<in> pairs (BTreeLeaf ks vs)} = vs ! j"
proof (intro set_eqI iffI)
  fix d assume "d \<in> {d. (ks ! j, d) \<in> pairs (BTreeLeaf ks vs)}"
  then obtain S where S: "(ks ! j, S) \<in> set (zip ks vs)" "d \<in> S"
    by auto
  from S(1) obtain i where i: "i < length ks" "ks ! i = ks ! j" "vs ! i = S"
    unfolding in_set_zip using assms(2) by auto
  have "distinct ks" using assms(1) by (simp add: strict_sorted_iff)
  from nth_eq_iff_index_eq [OF this i(1) assms(3)] i(2) have "i = j" by blast
  with i(3) S(2) show "d \<in> vs ! j" by simp
next
  fix d assume d: "d \<in> vs ! j"
  have "(ks ! j, vs ! j) \<in> set (zip ks vs)"
    unfolding in_set_zip using assms(2,3) by (intro exI [where x = j]) simp
  with d have "(ks ! j, d) \<in> pairs (BTreeLeaf ks vs)"
    unfolding pairs.simps by blast
  then show "d \<in> {d. (ks ! j, d) \<in> pairs (BTreeLeaf ks vs)}" by simp
qed

text \<open>\<open>get\<close> returns the posting set of a key the tree holds, and \<open>undefined\<close> for any other.\<close>

lemma get_invar:
  "invar e \<Longrightarrow>
   get key e = Inr (if key \<in> leafkeys e then Some {d. (key, d) \<in> pairs e} else None)"
proof (induction key e rule: get.induct)
  case (1 key ks vs)
  then have s: "sorted_wrt (<) ks" and l: "length vs = length ks" by simp_all
  show ?case
  proof (cases "key \<in> set ks")
    case True
    from leaf_get_in [OF s l True] obtain j where
      j: "j < length ks" "ks ! j = key" "BTreeLeaf_get key ks vs = Some (vs ! j)"
      by blast
    from leaf_posting [OF s l j(1)] j(2) have "{d. (key, d) \<in> pairs (BTreeLeaf ks vs)} = vs ! j"
      by simp
    with True j(3) show ?thesis by simp
  next
    case False
    then show ?thesis by (simp add: leaf_get_notin)
  qed
next
  case (2 key ks cs cov)
  let ?i = "findIndex key ks"
  have ic: "?i < length cs"
    using "2.prems" findIndex_le [of key ks] by simp
  then have g: "array_get cs (findChildIndex key ks) = Some (cs ! ?i)"
    by (simp add: array_get_def findChildIndex_eq)
  have "invar (cs ! ?i)" using "2.prems" ic by simp
  from "2.IH" [OF g this] have
    "get key (cs ! ?i) =
       Inr (if key \<in> leafkeys (cs ! ?i) then Some {d. (key, d) \<in> pairs (cs ! ?i)} else None)" .
  moreover have "get key (BTreeNode ks cs cov) = get key (cs ! ?i)"
    by (simp add: g)
  ultimately show ?case
    by (simp only: route_leafkeys [OF "2.prems"] route_pairs [OF "2.prems"])
qed

subsection \<open>The invariant gives the three structural properties\<close>

lemma invar_covering_exact: "invar e \<Longrightarrow> covering_exact e"
  by (induction e) simp_all

lemma invar_leaves_increasing: "invar e \<Longrightarrow> leaves_increasing e"
  by (induction e) simp_all

lemma invar_within_capacity: "invar e \<Longrightarrow> within_capacity e"
  by (induction e) simp_all

subsection \<open>\<open>collectGt\<close> at a key the tree holds\<close>

lemma findIndex_unique:
  assumes "j \<le> length ks" "\<forall>i<j. ks ! i \<le> key" "\<forall>i. j \<le> i \<and> i < length ks \<longrightarrow> key < ks ! i"
  shows "findIndex key ks = j"
proof -
  let ?f = "findIndex key ks"
  have "\<not> ?f < j"
  proof
    assume a: "?f < j"
    then have "?f < length ks" using assms(1) by simp
    then have "key < ks ! ?f" by (rule findIndex_at)
    with assms(2) a show False by fastforce
  qed
  moreover have "\<not> j < ?f"
  proof
    assume a: "j < ?f"
    then have "ks ! j \<le> key" by (rule findIndex_below)
    moreover have "j < length ks" using a findIndex_le [of key ks] by simp
    ultimately show False using assms(3) by fastforce
  qed
  ultimately show ?thesis by simp
qed

lemma leaf_collectGt_present:
  fixes ks :: "'a::linorder list"
  assumes "sorted_wrt (<) ks" "key \<in> set ks"
  shows "BTreeLeaf_collectGt (length ks) acc key ks vs = Inr acc"
proof -
  from assms(2) obtain j where j: "j < length ks" "ks ! j = key"
    by (auto simp: in_set_conv_nth)
  then obtain n where n: "length ks = Suc n"
    by (cases "length ks") auto
  have "\<not> ks ! n < key"
  proof (cases "j = n")
    case False
    with j n have "j < n" by simp
    from sorted_wrt_nth_less [OF assms(1) this] n j(2) show ?thesis by simp
  qed (use j in simp)
  then show ?thesis
    by (simp add: n array_get_def)
qed

lemma posting_union_pairs: "d \<in> posting_union e \<Longrightarrow> \<exists>k. (k, d) \<in> pairs e"
proof (induction e)
  case (BTreeLeaf ks vs)
  then show ?case by auto
next
  case (BTreeNode ks cs cov)
  then obtain c where c: "c \<in> set cs" "d \<in> posting_union c" by auto
  from BTreeNode.IH [OF this] obtain k where "(k, d) \<in> pairs c" by blast
  with c(1) have "(k, d) \<in> pairs (BTreeNode ks cs cov)" by auto
  then show ?case by blast
qed

lemma child_pairs:
  "c \<in> set cs \<Longrightarrow> (k, d) \<in> pairs c \<Longrightarrow> (k, d) \<in> pairs (BTreeNode ks cs cov)"
  by auto

text \<open>The loop of \<open>BTreeNode.collectGt\<close> stops at the child the key is routed to, and has
  collected only document ids stored under greater keys.\<close>

lemma node_collectGt_loop:
  assumes inv: "invar (BTreeNode ks cs cov)"
  shows "m \<le> length ks \<Longrightarrow> \<forall>i. m \<le> i \<and> i < length ks \<longrightarrow> key < ks ! i \<Longrightarrow>
         \<exists>G. BTreeNode_collectGt_loop m acc key ks cs = Inr (findIndex key ks, acc \<union> G) \<and>
             G \<subseteq> {d. \<exists>k. key < k \<and> (k, d) \<in> pairs (BTreeNode ks cs cov)}"
proof (induction m arbitrary: acc)
  case 0
  then have "findIndex key ks = 0"
    by (intro findIndex_unique) simp_all
  then have "BTreeNode_collectGt_loop 0 acc key ks cs = Inr (findIndex key ks, acc \<union> {})"
    by simp
  then show ?case by blast
next
  case (Suc m)
  from inv have len: "length cs = Suc (length ks)" and s: "sorted_wrt (<) ks"
    and sep: "separated ks cs" and ch: "\<forall>c\<in>set cs. invar c"
    by simp_all
  from Suc.prems(1) have m: "m < length ks" by simp
  then have gk: "array_get ks m = Some (ks ! m)" and gc: "array_get cs (Suc m) = Some (cs ! Suc m)"
    using len by (simp_all add: array_get_def)
  show ?case
  proof (cases "key < ks ! m")
    case True
    let ?c = "cs ! Suc m"
    have cin: "?c \<in> set cs" using m len by simp
    then have ca: "collectAll acc ?c = Inr (acc \<union> posting_union ?c)"
      using ch by (simp add: collectAll_invar)
    have "\<forall>i. m \<le> i \<and> i < length ks \<longrightarrow> key < ks ! i"
      using Suc.prems(2) True by (metis Suc_leI le_neq_implies_less)
    from Suc.IH [OF _ this, of "acc \<union> posting_union ?c"] m obtain G where
      G: "BTreeNode_collectGt_loop m (acc \<union> posting_union ?c) key ks cs = Inr (findIndex key ks, acc \<union> posting_union ?c \<union> G)"
        "G \<subseteq> {d. \<exists>k. key < k \<and> (k, d) \<in> pairs (BTreeNode ks cs cov)}"
      by auto
    have "posting_union ?c \<subseteq> {d. \<exists>k. key < k \<and> (k, d) \<in> pairs (BTreeNode ks cs cov)}"
    proof
      fix d assume "d \<in> posting_union ?c"
      then obtain k where k: "(k, d) \<in> pairs ?c"
        using posting_union_pairs by blast
      then have "k \<in> allkeys ?c"
        using leafkeys_allkeys [of ?c] pairs_leafkeys [of k d ?c] by auto
      then have "ks ! m \<le> k"
        using sep m by (simp add: separated_def)
      with True have "key < k" by simp
      moreover have "(k, d) \<in> pairs (BTreeNode ks cs cov)"
        using child_pairs [OF cin k] .
      ultimately show "d \<in> {d. \<exists>k. key < k \<and> (k, d) \<in> pairs (BTreeNode ks cs cov)}"
        by blast
    qed
    with G(2) have "posting_union ?c \<union> G \<subseteq> {d. \<exists>k. key < k \<and> (k, d) \<in> pairs (BTreeNode ks cs cov)}"
      by simp
    moreover have "BTreeNode_collectGt_loop (Suc m) acc key ks cs =
                   Inr (findIndex key ks, acc \<union> (posting_union ?c \<union> G))"
      using True G(1) by (simp add: gk gc ca Un_assoc)
    ultimately show ?thesis by blast
  next
    case False
    have "findIndex key ks = Suc m"
    proof (rule findIndex_unique)
      show "Suc m \<le> length ks" using m by simp
      show "\<forall>i<Suc m. ks ! i \<le> key"
      proof (intro allI impI)
        fix i assume i: "i < Suc m"
        show "ks ! i \<le> key"
        proof (cases "i = m")
          case True
          with False show ?thesis by simp
        next
          case ne: False
          with i have "i < m" by simp
          from sorted_wrt_nth_less [OF s this m] False show ?thesis by simp
        qed
      qed
      show "\<forall>i. Suc m \<le> i \<and> i < length ks \<longrightarrow> key < ks ! i"
        using Suc.prems(2) .
    qed
    then have "BTreeNode_collectGt_loop (Suc m) acc key ks cs = Inr (findIndex key ks, acc \<union> {})"
      using False by (simp add: gk)
    then show ?thesis by blast
  qed
qed

lemma collectGt_present:
  "invar e \<Longrightarrow> key \<in> leafkeys e \<Longrightarrow>
   \<exists>G. collectGt acc key e = Inr (acc \<union> G) \<and> G \<subseteq> {d. \<exists>k. key < k \<and> (k, d) \<in> pairs e}"
proof (induction acc key e rule: collectGt.induct)
  case (1 acc key ks vs)
  then have "collectGt acc key (BTreeLeaf ks vs) = Inr (acc \<union> {})"
    by (simp add: leaf_collectGt_present)
  then show ?case by blast
next
  case (2 acc key ks cs cov)
  let ?N = "BTreeNode ks cs cov" and ?i = "findIndex key ks"
  note inv = \<open>invar ?N\<close>
  have "\<forall>i. length ks \<le> i \<and> i < length ks \<longrightarrow> key < ks ! i"
    by auto
  from node_collectGt_loop [OF inv le_refl this, of acc] obtain G where
    G: "BTreeNode_collectGt_loop (length ks) acc key ks cs = Inr (?i, acc \<union> G)"
      "G \<subseteq> {d. \<exists>k. key < k \<and> (k, d) \<in> pairs ?N}"
    by blast
  have ic: "?i < length cs"
    using inv findIndex_le [of key ks] by simp
  then have gc: "array_get cs ?i = Some (cs ! ?i)"
    by (simp add: array_get_def)
  have cin: "cs ! ?i \<in> set cs" using ic by simp
  then have invc: "invar (cs ! ?i)" using inv by simp
  have kc: "key \<in> leafkeys (cs ! ?i)"
    using route_leafkeys [OF inv] "2.prems"(2) by blast
  from "2.IH" [OF G(1) refl gc invc kc] obtain G' where
    G': "collectGt (acc \<union> G) key (cs ! ?i) = Inr (acc \<union> G \<union> G')"
      "G' \<subseteq> {d. \<exists>k. key < k \<and> (k, d) \<in> pairs (cs ! ?i)}"
    by blast
  have "G' \<subseteq> {d. \<exists>k. key < k \<and> (k, d) \<in> pairs ?N}"
    using G'(2) child_pairs [OF cin] by blast
  with G(2) have "G \<union> G' \<subseteq> {d. \<exists>k. key < k \<and> (k, d) \<in> pairs ?N}"
    by simp
  moreover have "collectGt acc key ?N = Inr (acc \<union> (G \<union> G'))"
    by (simp add: G(1) gc G'(1) Un_assoc)
  ultimately show ?case by blast
qed

subsection \<open>The selector\<close>

lemma select_Some:
  fixes C :: RoaringBitmap32
  assumes "i < card C"
  shows "\<exists>p\<in>C. select C i = Some p"
proof -
  have "length (sorted_list_of_set C) = card C" "set (sorted_list_of_set C) = C"
    by simp_all
  with assms have "sorted_list_of_set C ! i \<in> C" "i < length (sorted_list_of_set C)"
    using nth_mem [of i "sorted_list_of_set C"] by simp_all
  then show ?thesis
    by (simp add: select_def array_get_def)
qed

lemma pivotIndex_bound:
  fixes r :: rat
  assumes "0 \<le> r" "r < 1" "0 < n"
  shows "nat \<lfloor>r * of_nat n\<rfloor> < n"
proof -
  have "r * of_nat n < of_nat n"
    using assms by simp
  then have "\<lfloor>r * of_nat n\<rfloor> < int n"
    by (simp add: floor_less_iff)
  then show ?thesis
    using assms(3) by simp
qed

lemma quickSelect_returns:
  fixes t :: "'a::linorder BTree"
  assumes inv: "invar (root t)"
  shows "\<forall>d\<in>C. \<exists>v. sortDocVals d = Some v \<and> (v, d) \<in> pairs (root t) \<and> (\<forall>k. (k, d) \<in> pairs (root t) \<longrightarrow> k = v) \<Longrightarrow>
         C \<noteq> {} \<Longrightarrow> card C \<le> length rs \<Longrightarrow> \<forall>r\<in>set rs. 0 \<le> r \<and> r < 1 \<Longrightarrow>
         \<exists>d\<in>C. quickSelect rs C (card C) t sortDocVals = Some (Inr d)"
proof (induction rs arbitrary: C)
  case Nil
  then have "card C = 0" by simp
  with Nil.prems(2) show ?case by simp
next
  case (Cons r rs)
  have pos: "0 < card C"
    using Cons.prems(2) by (simp add: card_gt_0_iff)
  let ?i = "nat \<lfloor>r * of_nat (card C)\<rfloor>"
  have "?i < card C"
    using Cons.prems(4) pos by (intro pivotIndex_bound) simp_all
  from select_Some [OF this] obtain pivot where
    pivot: "pivot \<in> C" "select C ?i = Some pivot"
    by blast
  from Cons.prems(1) pivot(1) obtain v where
    v: "sortDocVals pivot = Some v" "(v, pivot) \<in> pairs (root t)"
      "\<forall>k. (k, pivot) \<in> pairs (root t) \<longrightarrow> k = v"
    by blast
  from v(2) have "v \<in> leafkeys (root t)"
    by (rule pairs_leafkeys)
  from collectGt_present [OF inv this, of "{}"] obtain G where
    G: "gt v t = Inr G" "G \<subseteq> {d. \<exists>k. v < k \<and> (k, d) \<in> pairs (root t)}"
    by (auto simp: gt_def)
  have "pivot \<notin> G"
  proof
    assume "pivot \<in> G"
    with G(2) obtain k where "v < k" "(k, pivot) \<in> pairs (root t)" by blast
    with v(3) show False by auto
  qed
  with pivot(1) have sub: "C \<inter> G \<subset> C" by blast
  then have less: "card (C \<inter> G) < card C"
    by (intro psubset_card_mono) simp_all
  have step: "quickSelect (r # rs) C (card C) t sortDocVals =
              (if card (C \<inter> G) = 0 then Some (Inr pivot)
               else quickSelect rs (C \<inter> G) (card (C \<inter> G)) t sortDocVals)"
    by (simp add: Let_def pivot(2) v(1) G(1))
  show ?case
  proof (cases "card (C \<inter> G) = 0")
    case True
    with step pivot(1) show ?thesis by simp
  next
    case False
    then have ne: "C \<inter> G \<noteq> {}" by auto
    have h: "\<forall>d\<in>C \<inter> G. \<exists>v. sortDocVals d = Some v \<and> (v, d) \<in> pairs (root t) \<and>
               (\<forall>k. (k, d) \<in> pairs (root t) \<longrightarrow> k = v)"
      using Cons.prems(1) by blast
    have c: "card (C \<inter> G) \<le> length rs"
      using less Cons.prems(3) by simp
    have r: "\<forall>r\<in>set rs. 0 \<le> r \<and> r < 1"
      using Cons.prems(4) by simp
    from Cons.IH [OF h ne c r] obtain d where
      "d \<in> C \<inter> G" "quickSelect rs (C \<inter> G) (card (C \<inter> G)) t sortDocVals = Some (Inr d)"
      by blast
    with step False show ?thesis by auto
  qed
qed

subsection \<open>The example tree\<close>

lemma example_built: "inserts example_ops new_BTree = Inr example_tree"
  unfolding example_ops_def example_tree_def by code_simp

section \<open>The claims\<close>

text \<open>
  C1. The code at a tree holding the single pair \<open>(1, 100)\<close>: \<open>gt(0)\<close>, \<open>gte(0)\<close>, \<open>lt(2)\<close> and
  \<open>lte(2)\<close> return the empty set, and \<open>gt(5)\<close> and \<open>lt(0)\<close> return \<open>{100}\<close>. The range loops
  of a leaf compare the bound with the key the wrong way round.
\<close>

theorem range_leaf_inverted:
  "inserts [(1::nat, 100)] new_BTree = Inr \<lparr>root = BTreeLeaf [1] [{100}]\<rparr> \<and>
   gt 0 \<lparr>root = BTreeLeaf [1::nat] [{100}]\<rparr> = Inr {} \<and>
   gte 0 \<lparr>root = BTreeLeaf [1::nat] [{100}]\<rparr> = Inr {} \<and>
   lt 2 \<lparr>root = BTreeLeaf [1::nat] [{100}]\<rparr> = Inr {} \<and>
   lte 2 \<lparr>root = BTreeLeaf [1::nat] [{100}]\<rparr> = Inr {} \<and>
   gt 5 \<lparr>root = BTreeLeaf [1::nat] [{100}]\<rparr> = Inr {100} \<and>
   lt 0 \<lparr>root = BTreeLeaf [1::nat] [{100}]\<rparr> = Inr {100}"
  by (simp add: insert_BTree.simps new_BTree_def MAX_LEAF_SIZE_def BTreeLeaf_insert_def
      BTreeLeaf_get_def array_get_def array_splice_def gt_def gte_def lt_def lte_def)

text \<open>
  C2. The code on the scenario: \<open>get(8)\<close> returns \<open>{102}\<close>, but \<open>gt(5)\<close> and \<open>lte(3)\<close> return the
  empty set. Inserting document id 200 at key 5 makes \<open>get(5)\<close> return \<open>{100, 200}\<close>.
\<close>

theorem scenario_ranges_empty:
  "inserts scenario_ops new_BTree = Inr scenario_tree \<and>
   get_BTree 8 scenario_tree = Inr (Some {102}) \<and>
   gt 5 scenario_tree = Inr {} \<and>
   lte 3 scenario_tree = Inr {} \<and>
   insert_BTree 5 200 scenario_tree =
     Inr \<lparr>root = BTreeLeaf [1, 2, 3, 5, 7, 8, 9]
                  [{103}, {105}, {101}, {200, 100}, {106}, {102}, {104}]\<rparr>"
  by (simp add: scenario_ops_def scenario_tree_def insert_BTree.simps new_BTree_def
      MAX_LEAF_SIZE_def BTreeLeaf_insert_def BTreeLeaf_get_def array_get_def array_splice_def
      get_BTree_def gt_def lte_def)

text \<open>
  C3. After any sequence of insertions into the empty tree, every insertion has returned
  and the covering set of every inner node equals the union of the posting sets of the keys
  in its subtree.
\<close>

theorem covering_invariant:
  "\<exists>t. inserts ops new_BTree = Inr t \<and> covering_exact (root t)"
  using built [of ops] invar_covering_exact by blast

theorem covering_invariant_witness:
  "inserts example_ops new_BTree = Inr example_tree \<and> covering_exact (root example_tree)"
proof -
  from covering_invariant [of example_ops] obtain t where
    "inserts example_ops new_BTree = Inr t" "covering_exact (root t)"
    by blast
  then show ?thesis
    by (simp add: example_built)
qed

text \<open>
  C4. After any sequence of insertions into the empty tree, \<open>get(key)\<close> returns a posting set
  that contains \<open>docId\<close> for every pair \<open>(key, docId)\<close> inserted, and returns \<open>undefined\<close>,
  without an error, for every key never inserted.
\<close>

theorem get_round_trip:
  "\<exists>t. inserts ops new_BTree = Inr t \<and>
       (\<forall>(key, docId)\<in>set ops. \<exists>S. get_BTree key t = Inr (Some S) \<and> docId \<in> S) \<and>
       (\<forall>key. key \<notin> fst ` set ops \<longrightarrow> get_BTree key t = Inr None)"
proof -
  from built [of ops] obtain t where
    t: "inserts ops new_BTree = Inr t" "invar (root t)"
      "leafkeys (root t) = fst ` set ops" "pairs (root t) = set ops"
    by blast
  have g: "\<And>key. get_BTree key t =
             Inr (if key \<in> fst ` set ops then Some {d. (key, d) \<in> set ops} else None)"
    using get_invar [OF t(2)] t(3,4) by (simp add: get_BTree_def)
  have "\<forall>(key, docId)\<in>set ops. \<exists>S. get_BTree key t = Inr (Some S) \<and> docId \<in> S"
  proof (intro ballI, clarify)
    fix key docId assume a: "(key, docId) \<in> set ops"
    then have "key \<in> fst ` set ops" by force
    with a g [of key] show "\<exists>S. get_BTree key t = Inr (Some S) \<and> docId \<in> S"
      by simp
  qed
  moreover have "\<forall>key. key \<notin> fst ` set ops \<longrightarrow> get_BTree key t = Inr None"
    using g by simp
  ultimately show ?thesis using t(1) by blast
qed

theorem get_round_trip_witness:
  "\<exists>t. inserts scenario_ops new_BTree = Inr t \<and>
       (\<exists>S. get_BTree 8 t = Inr (Some S) \<and> 102 \<in> S) \<and>
       get_BTree 4 t = Inr None"
proof -
  from get_round_trip [of scenario_ops] obtain t where
    t: "inserts scenario_ops new_BTree = Inr t"
      "\<forall>(key, docId)\<in>set scenario_ops. \<exists>S. get_BTree key t = Inr (Some S) \<and> docId \<in> S"
      "\<forall>key. key \<notin> fst ` set scenario_ops \<longrightarrow> get_BTree key t = Inr None"
    by blast
  from t(2) have "\<exists>S. get_BTree 8 t = Inr (Some S) \<and> 102 \<in> S"
    by (simp add: scenario_ops_def)
  moreover from t(3) have "get_BTree 4 t = Inr None"
    by (simp add: scenario_ops_def)
  ultimately show ?thesis using t(1) by blast
qed

text \<open>
  C5. The code on the candidates \<open>{1, 2}\<close> with sort values 10 and 20, both indexed, when
  \<open>Math.random()\<close> returns \<open>1/4\<close>: the pivot is document 1, \<open>gt(10)\<close> is empty, and the selector
  returns document 1, whose sort value is not the greatest.
\<close>

theorem quickSelect_not_max:
  "inserts [(10::nat, 1), (20, 2)] new_BTree = Inr \<lparr>root = BTreeLeaf [10, 20] [{1}, {2}]\<rparr> \<and>
   gt 10 \<lparr>root = BTreeLeaf [10::nat, 20] [{1}, {2}]\<rparr> = Inr {} \<and>
   quickSelect [1 / 4] {1, 2} 2 \<lparr>root = BTreeLeaf [10::nat, 20] [{1}, {2}]\<rparr> [1 \<mapsto> 10, 2 \<mapsto> 20] =
     Some (Inr 1)"
  by (simp add: insert_BTree.simps new_BTree_def MAX_LEAF_SIZE_def BTreeLeaf_insert_def
      BTreeLeaf_get_def array_get_def array_splice_def gt_def select_def Let_def)

text \<open>
  C6 (as amended). A full leaf with increasing keys is split at index
  \<open>floor(keys.length / 2)\<close>: the key there is promoted, it does not occur among the keys of
  the left half, and it is the first key of the right half, where it stays with its posting
  set: the left half holds the keys and posting sets before that index, the right half those
  from that index on.
\<close>

theorem split_leaf_median:
  fixes ks :: "'a::linorder list"
  assumes "full (BTreeLeaf ks vs)" and "sorted_wrt (<) ks"
  shows "\<exists>s. split (BTreeLeaf ks vs) = Inr s \<and>
           array_get ks (length ks div 2) = Some (medianKey s) \<and>
           medianKey s \<notin> set (keys (left s)) \<and>
           array_get (keys (right s)) 0 = Some (medianKey s) \<and>
           array_get (vals (right s)) 0 = array_get vs (length ks div 2) \<and>
           keys (left s) = take (length ks div 2) ks \<and>
           vals (left s) = take (length ks div 2) vs \<and>
           keys (right s) = drop (length ks div 2) ks \<and>
           vals (right s) = drop (length ks div 2) vs"
proof -
  let ?m = "length ks div 2"
  from assms(1) have n: "32 \<le> length ks"
    by (simp add: MAX_LEAF_SIZE_def)
  then have ne: "ks \<noteq> []" and m: "?m < length ks"
    by auto
  have "ks ! ?m \<notin> set (take ?m ks)"
  proof
    assume "ks ! ?m \<in> set (take ?m ks)"
    then obtain j where j: "j < ?m" "ks ! j = ks ! ?m"
      by (auto dest: in_set_take_nth)
    from sorted_wrt_nth_less [OF assms(2) j(1) m] j(2) show False
      by simp
  qed
  moreover have "array_get (drop ?m ks) 0 = Some (ks ! ?m)"
    using m by (simp add: array_get_def)
  moreover have "array_get ks ?m = Some (ks ! ?m)"
    using m by (simp add: array_get_def)
  moreover have "array_get (drop ?m vs) 0 = array_get vs ?m"
    by (simp add: array_get_def)
  ultimately show ?thesis
    by (simp add: Let_def)
qed

theorem split_leaf_median_witness:
  "\<exists>s. split example_full_leaf = Inr s \<and>
       medianKey s = 16 \<and>
       medianKey s \<notin> set (keys (left s)) \<and>
       array_get (keys (right s)) 0 = Some 16 \<and>
       array_get (vals (right s)) 0 = Some {16} \<and>
       length (keys (left s)) = 16 \<and> length (vals (left s)) = 16 \<and>
       length (keys (right s)) = 16 \<and> length (vals (right s)) = 16"
proof -
  let ?ks = "keys example_full_leaf" and ?vs = "vals example_full_leaf"
  have f: "full (BTreeLeaf ?ks ?vs)"
    by (simp add: example_full_leaf_def MAX_LEAF_SIZE_def)
  have s: "sorted_wrt (<) ?ks"
    by (simp add: example_full_leaf_def)
  have h: "length ?ks div 2 = 16"
    by (simp add: example_full_leaf_def)
  have l: "length ?ks = 32" "length ?vs = 32"
    by (simp_all add: example_full_leaf_def)
  have e: "BTreeLeaf ?ks ?vs = example_full_leaf"
    by (simp add: example_full_leaf_def)
  have k: "array_get ?ks 16 = Some 16" and v: "array_get ?vs 16 = Some {16}"
    by (simp_all add: example_full_leaf_def array_get_def)
  from split_leaf_median [OF f s] obtain r where
    r: "split example_full_leaf = Inr r"
      "array_get ?ks 16 = Some (medianKey r)"
      "medianKey r \<notin> set (keys (left r))"
      "array_get (keys (right r)) 0 = Some (medianKey r)"
      "array_get (vals (right r)) 0 = array_get ?vs 16"
      "keys (left r) = take 16 ?ks" "vals (left r) = take 16 ?vs"
      "keys (right r) = drop 16 ?ks" "vals (right r) = drop 16 ?vs"
    unfolding h e by blast
  from r(2) k have m: "medianKey r = 16"
    by simp
  have "length (keys (left r)) = 16" "length (vals (left r)) = 16"
    "length (keys (right r)) = 16" "length (vals (right r)) = 16"
    by (simp_all add: r(6-9) l)
  with r(1,3,4,5) m v show ?thesis
    by auto
qed

theorem split_leaf_median_counterexample:
  "split example_full_leaf =
     Inr \<lparr>medianKey = 16,
          left = BTreeLeaf [0, 1, 2, 3, 4, 5, 6, 7, 8, 9, 10, 11, 12, 13, 14, 15]
                   [{0}, {1}, {2}, {3}, {4}, {5}, {6}, {7}, {8}, {9}, {10}, {11}, {12}, {13},
                    {14}, {15}],
          right = BTreeLeaf [16, 17, 18, 19, 20, 21, 22, 23, 24, 25, 26, 27, 28, 29, 30, 31]
                    [{16}, {17}, {18}, {19}, {20}, {21}, {22}, {23}, {24}, {25}, {26}, {27},
                     {28}, {29}, {30}, {31}]\<rparr> \<and>
   (16::nat) \<in> set [16, 17, 18, 19, 20, 21, 22, 23, 24, 25, 26, 27, 28, 29, 30, 31]"
  by (simp add: example_full_leaf_def Let_def array_get_def)

text \<open>
  C7. After any sequence of insertions into the empty tree, the keys of every leaf are
  strictly increasing: sorted ascending, without duplicates.
\<close>

theorem sorted_key_invariant:
  "\<exists>t. inserts ops new_BTree = Inr t \<and> leaves_increasing (root t)"
  using built [of ops] invar_leaves_increasing by blast

theorem sorted_key_invariant_witness:
  "inserts example_ops new_BTree = Inr example_tree \<and> leaves_increasing (root example_tree)"
proof -
  from sorted_key_invariant [of example_ops] obtain t where
    "inserts example_ops new_BTree = Inr t" "leaves_increasing (root t)"
    by blast
  then show ?thesis
    by (simp add: example_built)
qed

text \<open>
  C8. After any sequence of insertions into the empty tree, every leaf holds at most
  \<open>MAX_LEAF_SIZE = 32\<close> keys and every inner node at most \<open>MAX_NODE_SIZE = 32\<close> separator keys.
\<close>

theorem capacity_invariant:
  "\<exists>t. inserts ops new_BTree = Inr t \<and> within_capacity (root t) \<and>
       MAX_LEAF_SIZE = 32 \<and> MAX_NODE_SIZE = 32"
  using built [of ops] invar_within_capacity by (auto simp: MAX_LEAF_SIZE_def MAX_NODE_SIZE_def)

theorem capacity_invariant_witness:
  "inserts example_ops new_BTree = Inr example_tree \<and> within_capacity (root example_tree)"
proof -
  from capacity_invariant [of example_ops] obtain t where
    "inserts example_ops new_BTree = Inr t" "within_capacity (root t)"
    by blast
  then show ?thesis
    by (simp add: example_built)
qed

text \<open>
  C9. The candidate set is nonempty, every member has a sort value in the map and is
  indexed in the tree under that value and under no other key, and \<open>cardinality\<close> is the
  size of the set. Each call of \<open>quickSelect\<close> takes one value of \<open>Math.random()\<close> from the
  list: with as many values as the set has members the selector returns a document id of
  the set, so it makes at most that many calls.
\<close>

theorem quickSelect_terminates:
  fixes ops :: "('a::linorder \<times> uint32) list"
  assumes "C \<noteq> {}"
    and "\<forall>d\<in>C. \<exists>v. sortDocVals d = Some v \<and> (v, d) \<in> set ops \<and> (\<forall>k. (k, d) \<in> set ops \<longrightarrow> k = v)"
    and "length rs = card C"
    and "\<forall>r\<in>set rs. 0 \<le> r \<and> r < 1"
  shows "\<exists>t. inserts ops new_BTree = Inr t \<and>
           (\<exists>d\<in>C. quickSelect rs C (card C) t sortDocVals = Some (Inr d))"
proof -
  from built [of ops] obtain t where
    t: "inserts ops new_BTree = Inr t" "invar (root t)" "pairs (root t) = set ops"
    by blast
  have "\<exists>d\<in>C. quickSelect rs C (card C) t sortDocVals = Some (Inr d)"
    using quickSelect_returns [OF t(2), of C sortDocVals rs] assms by (simp add: t(3))
  with t(1) show ?thesis by blast
qed

theorem quickSelect_terminates_witness:
  "inserts example_ops new_BTree = Inr example_tree \<and>
   (\<exists>d\<in>{5, 20}. quickSelect [0, 0] {5, 20} 2 example_tree [5 \<mapsto> 5, 20 \<mapsto> 20] = Some (Inr d))"
proof -
  let ?C = "{5, 20} :: RoaringBitmap32"
  let ?m = "[5 \<mapsto> 5, 20 \<mapsto> 20] :: uint32 \<rightharpoonup> nat"
  have c: "card ?C = 2" by simp
  have 1: "?C \<noteq> {}" by simp
  have 2: "\<forall>d\<in>?C. \<exists>v. ?m d = Some v \<and> (v, d) \<in> set example_ops \<and>
             (\<forall>k. (k, d) \<in> set example_ops \<longrightarrow> k = v)"
    by (simp add: example_ops_def)
  have 3: "length [0, 0 :: rat] = card ?C" by simp
  have 4: "\<forall>r\<in>set [0, 0 :: rat]. 0 \<le> r \<and> r < 1" by simp
  from quickSelect_terminates [OF 1 2 3 4] obtain t where
    "inserts example_ops new_BTree = Inr t"
    "\<exists>d\<in>?C. quickSelect [0, 0] ?C (card ?C) t ?m = Some (Inr d)"
    by blast
  then show ?thesis
    by (simp only: example_built c sum.inject simp_thms)
qed

text \<open>
  C10. Inserting again a pair that a tree built by insertions already holds returns, and
  \<open>get\<close> gives for every key the same result as before.
\<close>

theorem insert_again_same_get:
  assumes "(key, docId) \<in> set ops"
  shows "\<exists>t t'. inserts ops new_BTree = Inr t \<and> insert_BTree key docId t = Inr t' \<and>
           (\<forall>k. get_BTree k t' = get_BTree k t)"
proof -
  from built [of ops] obtain t where
    t: "inserts ops new_BTree = Inr t" "invar (root t)"
      "leafkeys (root t) = fst ` set ops" "pairs (root t) = set ops"
    by blast
  from insert_BTree_inserted [OF t(2), of key docId] obtain t' where
    t': "insert_BTree key docId t = Inr t'" "inserted key docId (root t) (root t')"
    by blast
  from assms have "key \<in> fst ` set ops" by force
  with t'(2) t(3,4) assms have
    "invar (root t')" "leafkeys (root t') = leafkeys (root t)" "pairs (root t') = pairs (root t)"
    by (auto simp: inserted_def)
  then have "\<forall>k. get_BTree k t' = get_BTree k t"
    using get_invar [of "root t'"] get_invar [OF t(2)] by (simp add: get_BTree_def)
  with t(1) t'(1) show ?thesis by blast
qed

theorem insert_again_same_get_witness:
  "\<exists>t t'. inserts scenario_ops new_BTree = Inr t \<and> insert_BTree 8 102 t = Inr t' \<and>
          (\<forall>k. get_BTree k t' = get_BTree k t)"
proof -
  have "(8, 102) \<in> set scenario_ops"
    by (simp add: scenario_ops_def)
  then show ?thesis
    by (rule insert_again_same_get)
qed

end
